theory Spec2Isabelle
  imports Complex_Main "HOL-Library.Sublist"
begin

section \<open>JavaScript values as the response transformers see them\<close>

text \<open>
  The transformers of \<^verbatim>\<open>reason.js\<close> work on the values that \<^verbatim>\<open>JSON.parse\<close> returns.
  A property that is missing reads as \<^verbatim>\<open>undefined\<close>, which is \<open>None\<close> below; \<^verbatim>\<open>null\<close> is a
  JSON value of its own. An object keeps its keys in insertion order, so it is an
  association list. A number is the rational value of the double it parses to. Text is a list
  of bytes (UTF-8): every marker the code looks for is ASCII, and where the engine counts
  the code units of a string (the first character, the characters a string spreads into)
  the bytes are the same for ASCII text.
\<close>

datatype json =
    JNull
  | JBool bool
  | JNum rat
  | JStr string
  | JArr "json list"
  | JObj "(string \<times> json) list"

type_synonym jsval = "json option"

datatype error = SyntaxError | TypeError

fun truthy :: "jsval \<Rightarrow> bool" where
  "truthy None = False"
| "truthy (Some JNull) = False"
| "truthy (Some (JBool b)) = b"
| "truthy (Some (JNum r)) = (r \<noteq> 0)"
| "truthy (Some (JStr s)) = (s \<noteq> [])"
| "truthy (Some (JArr xs)) = True"
| "truthy (Some (JObj kvs)) = True"

text \<open>
  \<open>member v k\<close> is \<^verbatim>\<open>v.k\<close> for a value that is neither \<^verbatim>\<open>null\<close> nor \<^verbatim>\<open>undefined\<close> and a
  key that no prototype defines (the code reads \<^verbatim>\<open>citations\<close>, \<^verbatim>\<open>choices\<close>, \<^verbatim>\<open>delta\<close>,
  \<^verbatim>\<open>message\<close>, \<^verbatim>\<open>reasoning\<close> and \<^verbatim>\<open>content\<close>): only an object can have it.
\<close>

fun member :: "json \<Rightarrow> string \<Rightarrow> jsval" where
  "member (JObj kvs) k = map_of kvs k"
| "member v k = None"

text \<open>\<open>index0 v\<close> is \<^verbatim>\<open>v[0]\<close>: the first element of an array, the key \<^verbatim>\<open>"0"\<close> of an
  object, the first character of a string.\<close>

fun index0 :: "json \<Rightarrow> jsval" where
  "index0 (JArr []) = None"
| "index0 (JArr (x # xs)) = Some x"
| "index0 (JObj kvs) = map_of kvs ''0''"
| "index0 (JStr []) = None"
| "index0 (JStr (c # cs)) = Some (JStr [c])"
| "index0 v = None"

text \<open>Plain property access throws on \<^verbatim>\<open>null\<close> and \<^verbatim>\<open>undefined\<close>; the optional chain
  \<^verbatim>\<open>?.\<close> reads \<^verbatim>\<open>undefined\<close> there.\<close>

fun get :: "jsval \<Rightarrow> string \<Rightarrow> error + jsval" where
  "get None k = Inl TypeError"
| "get (Some JNull) k = Inl TypeError"
| "get (Some v) k = Inr (member v k)"

fun opt_member :: "jsval \<Rightarrow> string \<Rightarrow> jsval" where
  "opt_member None k = None"
| "opt_member (Some JNull) k = None"
| "opt_member (Some v) k = member v k"

fun opt_index0 :: "jsval \<Rightarrow> jsval" where
  "opt_index0 None = None"
| "opt_index0 (Some JNull) = None"
| "opt_index0 (Some v) = index0 v"

subsection \<open>Strings\<close>

abbreviation nl :: char where
  "nl \<equiv> CHR 0x0A"

fun join :: "string \<Rightarrow> string list \<Rightarrow> string" where
  "join sep [] = []"
| "join sep [x] = x"
| "join sep (x # y # ys) = x @ sep @ join sep (y # ys)"

text \<open>\<^verbatim>\<open>s.split('\n')\<close>: the pieces between line breaks, never an empty array.\<close>

fun split_from :: "string \<Rightarrow> string \<Rightarrow> string list" where
  "split_from cur [] = [cur]"
| "split_from cur (c # cs) =
     (if c = nl then cur # split_from [] cs else split_from (cur @ [c]) cs)"

definition split_nl :: "string \<Rightarrow> string list" where
  "split_nl s = split_from [] s"

text \<open>\<^verbatim>\<open>lines.pop()\<close> takes the last element off, and is \<^verbatim>\<open>undefined\<close> on an empty array.\<close>

fun pop :: "'a list \<Rightarrow> 'a option \<times> 'a list" where
  "pop [] = (None, [])"
| "pop (x # xs) = (Some (last (x # xs)), butlast (x # xs))"

text \<open>\<^verbatim>\<open>lines.pop() || ''\<close>\<close>

fun or_empty :: "string option \<Rightarrow> string" where
  "or_empty None = []"
| "or_empty (Some s) = (if s = [] then [] else s)"

function nat_to_string :: "nat \<Rightarrow> string" where
  "nat_to_string n =
     (if n < 10 then [char_of (48 + n)]
      else nat_to_string (n div 10) @ [char_of (48 + n mod 10)])"
  by pat_completeness auto
termination
  by (relation "measure id") auto

declare nat_to_string.simps [simp del]

definition int_to_string :: "int \<Rightarrow> string" where
  "int_to_string i = (if i < 0 then CHR ''-'' # nat_to_string (nat (- i)) else nat_to_string (nat i))"

text \<open>
  \<^verbatim>\<open>`${v}`\<close> on a parsed value. A number is printed by the engine (\<open>num\<close>); an array joins
  its elements with commas, \<^verbatim>\<open>null\<close> elements printing as nothing; an object prints as
  \<^verbatim>\<open>[object Object]\<close> unless it has a key \<^verbatim>\<open>toString\<close> of its own, which JSON can only
  fill with something that cannot be called, and then the conversion throws.
\<close>

fun ToString :: "(rat \<Rightarrow> string) \<Rightarrow> json \<Rightarrow> error + string"
  and join_elems :: "(rat \<Rightarrow> string) \<Rightarrow> json list \<Rightarrow> error + string" where
  "ToString num JNull = Inr ''null''"
| "ToString num (JBool b) = Inr (if b then ''true'' else ''false'')"
| "ToString num (JNum r) = Inr (num r)"
| "ToString num (JStr s) = Inr s"
| "ToString num (JArr xs) = join_elems num xs"
| "ToString num (JObj kvs) =
     (if ''toString'' \<in> set (map fst kvs) then Inl TypeError else Inr ''[object Object]'')"
| "join_elems num [] = Inr []"
| "join_elems num (x # xs) =
     (case (if x = JNull then Inr [] else ToString num x) of
        Inl e \<Rightarrow> Inl e
      | Inr s \<Rightarrow>
          (if xs = [] then Inr s
           else (case join_elems num xs of Inl e \<Rightarrow> Inl e | Inr r \<Rightarrow> Inr (s @ '','' @ r))))"

text \<open>\<^verbatim>\<open>`${v}`\<close> on a property that may be missing.\<close>

fun ToString_val :: "(rat \<Rightarrow> string) \<Rightarrow> jsval \<Rightarrow> error + string" where
  "ToString_val num None = Inr ''undefined''"
| "ToString_val num (Some v) = ToString num v"

subsection \<open>Objects\<close>

text \<open>\<^verbatim>\<open>{...o, k: v}\<close> keeps the place of a key that \<open>o\<close> has and appends a new one.\<close>

fun set_key :: "string \<Rightarrow> json \<Rightarrow> (string \<times> json) list \<Rightarrow> (string \<times> json) list" where
  "set_key k v [] = [(k, v)]"
| "set_key k v ((k', v') # kvs) =
     (if k' = k then (k, v) # kvs else (k', v') # set_key k v kvs)"

text \<open>\<^verbatim>\<open>delete o.k\<close>\<close>

definition delete_key :: "string \<Rightarrow> (string \<times> json) list \<Rightarrow> (string \<times> json) list" where
  "delete_key k kvs = filter (\<lambda>kv. fst kv \<noteq> k) kvs"

fun indexed :: "nat \<Rightarrow> json list \<Rightarrow> (string \<times> json) list" where
  "indexed i [] = []"
| "indexed i (x # xs) = (nat_to_string i, x) # indexed (Suc i) xs"

text \<open>\<^verbatim>\<open>{...v}\<close>: the own enumerable properties of \<open>v\<close>. A string spreads into its code
  units, which are its bytes when it is ASCII; no property below is about what a string
  spreads into.\<close>

fun spread :: "json \<Rightarrow> (string \<times> json) list" where
  "spread (JObj kvs) = kvs"
| "spread (JArr xs) = indexed 0 xs"
| "spread (JStr s) = indexed 0 (map (\<lambda>c. JStr [c]) s)"
| "spread v = []"

fun spread_val :: "jsval \<Rightarrow> (string \<times> json) list" where
  "spread_val None = []"
| "spread_val (Some v) = spread v"

section \<open>The platform\<close>

text \<open>
  What the browser supplies and the repository does not define: \<^verbatim>\<open>JSON.parse\<close> (\<open>None\<close>
  when it throws), \<^verbatim>\<open>JSON.stringify\<close>, the printing of a number, the readings of
  \<^verbatim>\<open>performance.now()\<close> in milliseconds (the n-th call reads \<open>performance_now n\<close>), the
  comparison \<^verbatim>\<open>v > 0\<close> on a value that is not a number, and the rounding of the result of
  an arithmetic operation to the double that represents it (\<open>to_double\<close>).
\<close>

record env =
  JSON_parse :: "string \<Rightarrow> json option"
  JSON_stringify :: "json \<Rightarrow> string"
  Number_toString :: "rat \<Rightarrow> string"
  performance_now :: "nat \<Rightarrow> rat"
  GreaterThanZero :: "json \<Rightarrow> bool"
  to_double :: "rat \<Rightarrow> rat"

section \<open>What a transformed stream carries\<close>

text \<open>
  Every \<^verbatim>\<open>controller.enqueue\<close> of the source is one \<open>emitted\<close> value, named after the
  place that enqueues it: a line passed on as \<^verbatim>\<open>`${line}\n`\<close>, or an event the
  transformer builds and serialises as \<^verbatim>\<open>`data: ${JSON.stringify(x)}\n\n`\<close>.
\<close>

datatype emitted =
    Forwarded string
  | Header json
  | Reasoning json
  | Separator json
  | Footer json
  | Cleaned json

fun wire :: "env \<Rightarrow> emitted \<Rightarrow> string" where
  "wire E (Forwarded line) = line @ [nl]"
| "wire E (Header j) = ''data: '' @ JSON_stringify E j @ [nl, nl]"
| "wire E (Reasoning j) = ''data: '' @ JSON_stringify E j @ [nl, nl]"
| "wire E (Separator j) = ''data: '' @ JSON_stringify E j @ [nl, nl]"
| "wire E (Footer j) = ''data: '' @ JSON_stringify E j @ [nl, nl]"
| "wire E (Cleaned j) = ''data: '' @ JSON_stringify E j @ [nl, nl]"

definition wire_text :: "env \<Rightarrow> emitted list \<Rightarrow> string" where
  "wire_text E out = concat (map (wire E) out)"

datatype outcome = Closed | Errored

section \<open>The read loop\<close>

text \<open>
  \<^verbatim>\<open>for (const line of lines)\<close>: a line's handler returns what it enqueued and either the
  new state or the exception that leaves the loop.
\<close>

fun for_lines ::
  "('s \<Rightarrow> string \<Rightarrow> emitted list \<times> (error + 's)) \<Rightarrow> 's \<Rightarrow> string list
     \<Rightarrow> emitted list \<times> (error + 's)" where
  "for_lines f st [] = ([], Inr st)"
| "for_lines f st (l # ls) =
     (case f st l of
        (out, Inl e) \<Rightarrow> (out, Inl e)
      | (out, Inr st') \<Rightarrow> (case for_lines f st' ls of (out', r) \<Rightarrow> (out @ out', r)))"

text \<open>
  \<^verbatim>\<open>while (true) { read; if (done) break; buffer += chunk; lines = buffer.split('\n');
  buffer = lines.pop() || ''; for ... }\<close> over the chunks the transport delivers before it
  reports completion. The chunks are the decoded text of each read.
\<close>

fun read_loop ::
  "('s \<Rightarrow> string \<Rightarrow> emitted list \<times> (error + 's)) \<Rightarrow> 's \<Rightarrow> string \<Rightarrow> string list
     \<Rightarrow> emitted list \<times> (error + 's \<times> string)" where
  "read_loop f st buffer [] = ([], Inr (st, buffer))"
| "read_loop f st buffer (chunk # chunks) =
     (case pop (split_nl (buffer @ chunk)) of
        (last_piece, lines) \<Rightarrow>
          (case for_lines f st lines of
             (out, Inl e) \<Rightarrow> (out, Inl e)
           | (out, Inr st') \<Rightarrow>
               (case read_loop f st' (or_empty last_piece) chunks of
                  (out', r) \<Rightarrow> (out @ out', r))))"

section \<open>Citation lists\<close>

text \<open>\<^verbatim>\<open>xs.map((citation, i) => `[${i + 1}]` + mark + `${citation}`)\<close>, where \<open>mark\<close> is
  \<^verbatim>\<open>" > "\<close> in \<^verbatim>\<open>reason.js\<close> and \<^verbatim>\<open>"> "\<close> in the other file.\<close>

fun citation_entries :: "(rat \<Rightarrow> string) \<Rightarrow> string \<Rightarrow> nat \<Rightarrow> json list \<Rightarrow> error + string list" where
  "citation_entries num mark i [] = Inr []"
| "citation_entries num mark i (c # cs) =
     (case ToString num c of
        Inl e \<Rightarrow> Inl e
      | Inr s \<Rightarrow>
          (case citation_entries num mark (Suc i) cs of
             Inl e \<Rightarrow> Inl e
           | Inr ss \<Rightarrow> Inr ((''['' @ nat_to_string (Suc i) @ '']'' @ mark @ s) # ss)))"

text \<open>\<^verbatim>\<open>citations.map(...).join("\n")\<close>: only an array has \<^verbatim>\<open>map\<close>.\<close>

fun citations_text :: "(rat \<Rightarrow> string) \<Rightarrow> string \<Rightarrow> jsval \<Rightarrow> error + string" where
  "citations_text num mark (Some (JArr xs)) =
     (case citation_entries num mark 0 xs of Inl e \<Rightarrow> Inl e | Inr ss \<Rightarrow> Inr (join [nl] ss))"
| "citations_text num mark v = Inl TypeError"

section \<open>The streaming transformers\<close>

text \<open>
  The repository holds four versions of \<^verbatim>\<open>processStreamingResponse\<close>: \<open>A\<close> and \<open>B\<close> are the
  first and the second of \<^verbatim>\<open>reason.js\<close> (lines 63 and 306), \<open>C\<close> and \<open>D\<close> the first and the
  second of the other file (lines 63 and 368). \<open>A\<close> only collects citations; the other three
  also rewrite the reasoning phase. The state of each is the set of variables its closure
  declares; \<^verbatim>\<open>null\<close> is \<open>Some JNull\<close> for \<open>citations\<close> and \<open>None\<close> for the start time.
  \<open>ticks\<close> counts the calls of \<^verbatim>\<open>performance.now()\<close> made so far.
\<close>

record state_A =
  citations :: jsval

record state_B = state_A +
  reasoningStarted :: bool
  reasoningEnded :: bool
  startThinkingTime :: "rat option"
  ticks :: nat

record state_C = state_B +
  responseFinished :: bool

record state_D = state_B +
  citationsReceived :: bool

definition init_A :: state_A where
  "init_A = \<lparr>citations = Some JNull\<rparr>"

definition init_B :: state_B where
  "init_B = \<lparr>citations = Some JNull, reasoningStarted = False, reasoningEnded = False,
             startThinkingTime = None, ticks = 0\<rparr>"

definition init_C :: state_C where
  "init_C = \<lparr>citations = Some JNull, reasoningStarted = False, reasoningEnded = False,
             startThinkingTime = None, ticks = 0, responseFinished = False\<rparr>"

definition init_D :: state_D where
  "init_D = \<lparr>citations = Some (JArr []), reasoningStarted = False, reasoningEnded = False,
             startThinkingTime = None, ticks = 0, citationsReceived = False\<rparr>"

subsection \<open>Pieces the versions share\<close>

text \<open>\<^verbatim>\<open>`data: ${JSON.stringify({ citations: citationsText })}\n\n`\<close> of \<open>A\<close> and \<open>B\<close>.\<close>

definition citationsMessage :: "env \<Rightarrow> jsval \<Rightarrow> error + emitted" where
  "citationsMessage E cit =
     (case citations_text (Number_toString E) '' > '' cit of
        Inl e \<Rightarrow> Inl e
      | Inr text \<Rightarrow> Inr (Footer (JObj [(''citations'', JStr text)])))"

text \<open>The sentinel branch of \<open>A\<close> and \<open>B\<close>: the citations, if any are held, go out before
  the line, and the store is cleared. It is outside the inner \<^verbatim>\<open>try\<close>.\<close>

definition sentinel_AB ::
  "env \<Rightarrow> 'a state_A_scheme \<Rightarrow> string \<Rightarrow> emitted list \<times> (error + 'a state_A_scheme)" where
  "sentinel_AB E st line =
     (if truthy (citations st) then
        (case citationsMessage E (citations st) of
           Inl e \<Rightarrow> ([], Inl e)
         | Inr m \<Rightarrow> ([m, Forwarded line], Inr (st\<lparr>citations := Some JNull\<rparr>)))
      else ([Forwarded line], Inr st))"

text \<open>After the loop of \<open>A\<close> and \<open>B\<close>: \<^verbatim>\<open>if (citations) { ... enqueue } controller.close()\<close>,
  and \<^verbatim>\<open>controller.error\<close> when that threw.\<close>

definition finish_AB :: "env \<Rightarrow> 'a state_A_scheme \<Rightarrow> emitted list \<times> outcome" where
  "finish_AB E st =
     (if truthy (citations st) then
        (case citationsMessage E (citations st) of
           Inl e \<Rightarrow> ([], Errored)
         | Inr m \<Rightarrow> ([m], Closed))
      else ([], Closed))"

text \<open>\<^verbatim>\<open>if (data.citations && !citations) citations = data.citations\<close>\<close>

definition capture :: "jsval \<Rightarrow> 'a state_A_scheme \<Rightarrow> 'a state_A_scheme" where
  "capture c st = (if truthy c \<and> \<not> truthy (citations st) then st\<lparr>citations := c\<rparr> else st)"

text \<open>\<^verbatim>\<open>data.choices[0]\<close> and \<^verbatim>\<open>data?.choices?.[0]?.delta\<close>\<close>

definition choice0 :: "json \<Rightarrow> jsval" where
  "choice0 data = opt_index0 (opt_member (Some data) ''choices'')"

definition delta_of :: "json \<Rightarrow> jsval" where
  "delta_of data = opt_member (choice0 data) ''delta''"

definition thinking_text :: string where
  "thinking_text = [CHR 0xF0, CHR 0x9F, CHR 0x92, CHR 0xAD] @ '' Thinking...\<newline>\<newline>> ''"

text \<open>\<^verbatim>\<open>Math.round((performance.now() - startThinkingTime) / 1000)\<close>; a start time that is
  still \<^verbatim>\<open>null\<close> counts as 0. The difference and the quotient are doubles, each the
  rounded result of its operation; \<^verbatim>\<open>Math.round\<close> is exact, with halves going up.\<close>

definition thinkingDuration :: "env \<Rightarrow> rat \<Rightarrow> rat option \<Rightarrow> int" where
  "thinkingDuration E now start =
     \<lfloor>to_double E (to_double E (now - (case start of None \<Rightarrow> 0 | Some t \<Rightarrow> t)) / 1000) + 1 / 2\<rfloor>"

definition separator_text :: "int \<Rightarrow> string" where
  "separator_text d =
     [nl, nl, CHR 0xF0, CHR 0x9F, CHR 0x92, CHR 0xA1] @ '' Thought for '' @ int_to_string d
       @ '' seconds\<newline>\<newline>---\<newline>\<newline>''"

text \<open>\<^verbatim>\<open>delta.reasoning.replace(/\n/g, '\n> ')\<close>: only a string has \<^verbatim>\<open>replace\<close>.\<close>

definition replace_nl :: "string \<Rightarrow> string" where
  "replace_nl s = concat (map (\<lambda>c. if c = nl then nl # ''> '' else [c]) s)"

fun quote_continuation :: "jsval \<Rightarrow> error + string" where
  "quote_continuation (Some (JStr s)) = Inr (replace_nl s)"
| "quote_continuation v = Inl TypeError"

text \<open>\<^verbatim>\<open>{ ...data, choices: [{ ...data.choices[0], delta: { content } }] }\<close> of \<open>B\<close> and \<open>D\<close>.\<close>

definition with_delta :: "json \<Rightarrow> string \<Rightarrow> json" where
  "with_delta data content =
     JObj (set_key ''choices''
            (JArr [JObj (set_key ''delta'' (JObj [(''content'', JStr content)])
                          (spread_val (choice0 data)))])
            (spread data))"

text \<open>\<^verbatim>\<open>{ choices: [{ delta: { content } }] }\<close> of \<open>C\<close>, and of the footers of \<open>C\<close> and \<open>D\<close>.\<close>

definition only_delta :: "string \<Rightarrow> json" where
  "only_delta content = JObj [(''choices'', JArr [JObj [(''delta'', JObj [(''content'', JStr content)])]])]"

text \<open>The first call of \<^verbatim>\<open>performance.now()\<close> and the flag, taken when reasoning starts.\<close>

definition start_thinking :: "env \<Rightarrow> 'a state_B_scheme \<Rightarrow> 'a state_B_scheme" where
  "start_thinking E st =
     st\<lparr>startThinkingTime := Some (performance_now E (ticks st)),
        ticks := Suc (ticks st), reasoningStarted := True\<rparr>"

text \<open>\<^verbatim>\<open>citations.length > 0\<close>\<close>

fun length_positive :: "env \<Rightarrow> jsval \<Rightarrow> error + bool" where
  "length_positive E None = Inl TypeError"
| "length_positive E (Some JNull) = Inl TypeError"
| "length_positive E (Some (JArr xs)) = Inr (xs \<noteq> [])"
| "length_positive E (Some (JStr s)) = Inr (s \<noteq> [])"
| "length_positive E (Some (JObj kvs)) =
     (case map_of kvs ''length'' of
        None \<Rightarrow> Inr False
      | Some (JNum r) \<Rightarrow> Inr (0 < r)
      | Some v \<Rightarrow> Inr (GreaterThanZero E v))"
| "length_positive E (Some v) = Inr False"

text \<open>The body of the inner \<^verbatim>\<open>try\<close> returns what it enqueued, the state it left, and the
  exception if one was thrown; the \<^verbatim>\<open>catch\<close> passes the line on and the loop goes on.\<close>

definition catch_forward ::
  "string \<Rightarrow> emitted list \<times> 's \<times> error option \<Rightarrow> emitted list \<times> (error + 's)" where
  "catch_forward line r =
     (case r of
        (out, st, None) \<Rightarrow> (out, Inr st)
      | (out, st, Some e) \<Rightarrow> (out @ [Forwarded line], Inr st))"

subsection \<open>Version A (reason.js, line 63)\<close>

definition try_A :: "env \<Rightarrow> state_A \<Rightarrow> string \<Rightarrow> emitted list \<times> state_A \<times> error option" where
  "try_A E st line =
     (case JSON_parse E (drop 6 line) of
        None \<Rightarrow> ([], st, Some SyntaxError)
      | Some data \<Rightarrow>
          (case get (Some data) ''citations'' of
             Inl e \<Rightarrow> ([], st, Some e)
           | Inr c \<Rightarrow> ([Forwarded line], capture c st, None)))"

definition process_line_A :: "env \<Rightarrow> state_A \<Rightarrow> string \<Rightarrow> emitted list \<times> (error + state_A)" where
  "process_line_A E st line =
     (if prefix ''data: '' line then
        (if sublist ''[DONE]'' line then sentinel_AB E st line
         else catch_forward line (try_A E st line))
      else ([Forwarded line], Inr st))"

definition processStreamingResponse_A :: "env \<Rightarrow> string list \<Rightarrow> emitted list \<times> outcome" where
  "processStreamingResponse_A E chunks =
     (case read_loop (process_line_A E) init_A [] chunks of
        (out, Inl e) \<Rightarrow> (out, Errored)
      | (out, Inr (st, buffer)) \<Rightarrow> (case finish_AB E st of (out', oc) \<Rightarrow> (out @ out', oc)))"

subsection \<open>Version B (reason.js, line 306)\<close>

definition try_B :: "env \<Rightarrow> state_B \<Rightarrow> string \<Rightarrow> emitted list \<times> state_B \<times> error option" where
  "try_B E st line =
     (case JSON_parse E (drop 6 line) of
        None \<Rightarrow> ([], st, Some SyntaxError)
      | Some data \<Rightarrow>
          (case get (Some data) ''citations'' of
             Inl e \<Rightarrow> ([], st, Some e)
           | Inr c \<Rightarrow>
               (let st1 = capture c st; delta = delta_of data in
                if truthy delta then
                  (if truthy (opt_member delta ''reasoning'') \<and> opt_member delta ''content'' = Some JNull then
                     (let hdr = (if reasoningStarted st1 then [] else [Header (with_delta data thinking_text)]);
                          st2 = (if reasoningStarted st1 then st1 else start_thinking E st1)
                      in case quote_continuation (opt_member delta ''reasoning'') of
                           Inl e \<Rightarrow> (hdr, st2, Some e)
                         | Inr content \<Rightarrow> (hdr @ [Reasoning (with_delta data content)], st2, None))
                   else if opt_member delta ''content'' \<noteq> Some JNull \<and> reasoningStarted st1
                           \<and> \<not> reasoningEnded st1 then
                     ([Separator (with_delta data
                         (separator_text (thinkingDuration E (performance_now E (ticks st1)) (startThinkingTime st1)))),
                       Forwarded line],
                      st1\<lparr>reasoningEnded := True, ticks := Suc (ticks st1)\<rparr>, None)
                   else ([Forwarded line], st1, None))
                else ([Forwarded line], st1, None))))"

definition process_line_B :: "env \<Rightarrow> state_B \<Rightarrow> string \<Rightarrow> emitted list \<times> (error + state_B)" where
  "process_line_B E st line =
     (if prefix ''data: '' line then
        (if sublist ''[DONE]'' line then sentinel_AB E st line
         else catch_forward line (try_B E st line))
      else ([Forwarded line], Inr st))"

definition processStreamingResponse_B :: "env \<Rightarrow> string list \<Rightarrow> emitted list \<times> outcome" where
  "processStreamingResponse_B E chunks =
     (case read_loop (process_line_B E) init_B [] chunks of
        (out, Inl e) \<Rightarrow> (out, Errored)
      | (out, Inr (st, buffer)) \<Rightarrow> (case finish_AB E st of (out', oc) \<Rightarrow> (out @ out', oc)))"

subsection \<open>Version C (the other file, line 63)\<close>

text \<open>Reasoning is a delta whose \<^verbatim>\<open>content\<close> is falsy, the phase ends on a delta whose
  \<^verbatim>\<open>content\<close> is not \<^verbatim>\<open>undefined\<close>, the built events carry nothing of the incoming one, and
  the sentinel line is only passed on: the citations go out when the transport is done.\<close>

definition try_C :: "env \<Rightarrow> state_C \<Rightarrow> string \<Rightarrow> emitted list \<times> state_C \<times> error option" where
  "try_C E st line =
     (case JSON_parse E (drop 6 line) of
        None \<Rightarrow> ([], st, Some SyntaxError)
      | Some data \<Rightarrow>
          (case get (Some data) ''citations'' of
             Inl e \<Rightarrow> ([], st, Some e)
           | Inr c \<Rightarrow>
               (let st1 = capture c st; delta = delta_of data in
                if truthy delta then
                  (if truthy (opt_member delta ''reasoning'') \<and> \<not> truthy (opt_member delta ''content'') then
                     (let hdr = (if reasoningStarted st1 then [] else [Header (only_delta thinking_text)]);
                          st2 = (if reasoningStarted st1 then st1 else start_thinking E st1)
                      in case quote_continuation (opt_member delta ''reasoning'') of
                           Inl e \<Rightarrow> (hdr, st2, Some e)
                         | Inr content \<Rightarrow> (hdr @ [Reasoning (only_delta content)], st2, None))
                   else if opt_member delta ''content'' \<noteq> None \<and> reasoningStarted st1
                           \<and> \<not> reasoningEnded st1 then
                     ([Separator (only_delta
                         (separator_text (thinkingDuration E (performance_now E (ticks st1)) (startThinkingTime st1)))),
                       Forwarded line],
                      st1\<lparr>reasoningEnded := True, ticks := Suc (ticks st1)\<rparr>, None)
                   else ([Forwarded line], st1, None))
                else ([Forwarded line], st1, None))))"

definition process_line_C :: "env \<Rightarrow> state_C \<Rightarrow> string \<Rightarrow> emitted list \<times> (error + state_C)" where
  "process_line_C E st line =
     (if prefix ''data: '' line then
        (if sublist ''[DONE]'' line then ([Forwarded line], Inr st)
         else catch_forward line (try_C E st line))
      else ([Forwarded line], Inr st))"

text \<open>\<^verbatim>\<open>if (done && !responseFinished) { responseFinished = true;
  if (citations && citations.length > 0) { ... enqueue } break; }\<close>\<close>

definition finish_C :: "env \<Rightarrow> state_C \<Rightarrow> emitted list \<times> outcome" where
  "finish_C E st =
     (if truthy (citations st) then
        (case length_positive E (citations st) of
           Inl e \<Rightarrow> ([], Errored)
         | Inr False \<Rightarrow> ([], Closed)
         | Inr True \<Rightarrow>
             (case citations_text (Number_toString E) ''> '' (citations st) of
                Inl e \<Rightarrow> ([], Errored)
              | Inr text \<Rightarrow>
                  ([Footer (only_delta (''\<newline>\<newline>---\<newline>\<newline>Sources:\<newline>'' @ text))], Closed)))
      else ([], Closed))"

definition processStreamingResponse_C :: "env \<Rightarrow> string list \<Rightarrow> emitted list \<times> outcome" where
  "processStreamingResponse_C E chunks =
     (case read_loop (process_line_C E) init_C [] chunks of
        (out, Inl e) \<Rightarrow> (out, Errored)
      | (out, Inr (st, buffer)) \<Rightarrow> (case finish_C E st of (out', oc) \<Rightarrow> (out @ out', oc)))"

subsection \<open>Version D (the other file, line 368)\<close>

text \<open>Reasoning is recognised as in \<open>B\<close>. A chunk that holds nothing but the first citations
  is dropped; a line that is neither reasoning nor the end of it is serialised again, without
  its \<^verbatim>\<open>citations\<close> when they are truthy.\<close>

definition cleanData :: "json \<Rightarrow> json" where
  "cleanData data =
     (let copy = spread data
      in if truthy (map_of copy ''citations'') then JObj (delete_key ''citations'' copy) else JObj copy)"

definition try_D :: "env \<Rightarrow> state_D \<Rightarrow> string \<Rightarrow> emitted list \<times> state_D \<times> error option" where
  "try_D E st line =
     (case JSON_parse E (drop 6 line) of
        None \<Rightarrow> ([], st, Some SyntaxError)
      | Some data \<Rightarrow>
          (case get (Some data) ''citations'' of
             Inl e \<Rightarrow> ([], st, Some e)
           | Inr c \<Rightarrow>
               (let fresh = (truthy c \<and> \<not> citationsReceived st);
                    st1 = (if fresh then st\<lparr>citations := c, citationsReceived := True\<rparr> else st);
                    delta = delta_of data
                in if fresh \<and> length (spread data) = 1 \<and> truthy c then ([], st1, None)
                else if truthy delta then
                  (if truthy (opt_member delta ''reasoning'') \<and> opt_member delta ''content'' = Some JNull then
                     (let hdr = (if reasoningStarted st1 then [] else [Header (with_delta data thinking_text)]);
                          st2 = (if reasoningStarted st1 then st1 else start_thinking E st1)
                      in case quote_continuation (opt_member delta ''reasoning'') of
                           Inl e \<Rightarrow> (hdr, st2, Some e)
                         | Inr content \<Rightarrow> (hdr @ [Reasoning (with_delta data content)], st2, None))
                   else if opt_member delta ''content'' \<noteq> Some JNull \<and> reasoningStarted st1
                           \<and> \<not> reasoningEnded st1 then
                     ([Separator (with_delta data
                         (separator_text (thinkingDuration E (performance_now E (ticks st1)) (startThinkingTime st1)))),
                       Forwarded line],
                      st1\<lparr>reasoningEnded := True, ticks := Suc (ticks st1)\<rparr>, None)
                   else ([Cleaned (cleanData data)], st1, None))
                else ([Cleaned (cleanData data)], st1, None))))"

definition process_line_D :: "env \<Rightarrow> state_D \<Rightarrow> string \<Rightarrow> emitted list \<times> (error + state_D)" where
  "process_line_D E st line =
     (if prefix ''data: '' line then
        (if sublist ''[DONE]'' line then ([Forwarded line], Inr st)
         else catch_forward line (try_D E st line))
      else ([Forwarded line], Inr st))"

text \<open>\<^verbatim>\<open>if (done) { if (citations.length > 0) { ... enqueue } break; }\<close>\<close>

definition finish_D :: "env \<Rightarrow> state_D \<Rightarrow> emitted list \<times> outcome" where
  "finish_D E st =
     (case length_positive E (citations st) of
        Inl e \<Rightarrow> ([], Errored)
      | Inr False \<Rightarrow> ([], Closed)
      | Inr True \<Rightarrow>
          (case citations_text (Number_toString E) ''> '' (citations st) of
             Inl e \<Rightarrow> ([], Errored)
           | Inr text \<Rightarrow> ([Footer (only_delta (''\<newline>\<newline>---\<newline>\<newline>'' @ text))], Closed)))"

definition processStreamingResponse_D :: "env \<Rightarrow> string list \<Rightarrow> emitted list \<times> outcome" where
  "processStreamingResponse_D E chunks =
     (case read_loop (process_line_D E) init_D [] chunks of
        (out, Inl e) \<Rightarrow> (out, Errored)
      | (out, Inr (st, buffer)) \<Rightarrow> (case finish_D E st of (out', oc) \<Rightarrow> (out @ out', oc)))"

section \<open>The non-streaming transformers\<close>

text \<open>
  \<^verbatim>\<open>line.trim()\<close> is the empty string, hence falsy, when the line holds white space and line
  terminators only. \<open>ws_len s\<close> is the number of bytes of the white space character that \<open>s\<close>
  starts with, and 0 when it starts with none: tab, line feed, vertical tab, form feed,
  carriage return, space, and in UTF-8 the characters U+00A0, U+1680, U+2000 to U+200A, U+2028,
  U+2029, U+202F, U+205F, U+3000 and U+FEFF.
\<close>

definition ws_len :: "string \<Rightarrow> nat" where
  "ws_len s =
     (if take 1 s \<in> set (map (\<lambda>c. [c]) [CHR 0x09, CHR 0x0A, CHR 0x0B, CHR 0x0C, CHR 0x0D, CHR 0x20]) then 1
      else if take 2 s = [CHR 0xC2, CHR 0xA0] then 2
      else if take 3 s \<in> set ([[CHR 0xE1, CHR 0x9A, CHR 0x80], [CHR 0xE2, CHR 0x81, CHR 0x9F],
                [CHR 0xE3, CHR 0x80, CHR 0x80], [CHR 0xEF, CHR 0xBB, CHR 0xBF]]
              @ map (\<lambda>c. [CHR 0xE2, CHR 0x80, c])
                  [CHR 0x80, CHR 0x81, CHR 0x82, CHR 0x83, CHR 0x84, CHR 0x85, CHR 0x86, CHR 0x87,
                   CHR 0x88, CHR 0x89, CHR 0x8A, CHR 0xA8, CHR 0xA9, CHR 0xAF]) then 3
      else 0)"

function blank :: "string \<Rightarrow> bool" where
  "blank s = (if s = [] then True else if ws_len s = 0 then False else blank (drop (ws_len s) s))"
  by pat_completeness auto
termination
  by (relation "measure length") auto

declare blank.simps [simp del]

text \<open>\<^verbatim>\<open>line => (line.trim() ? `> ${line}` : '>')\<close>\<close>

definition quote_line :: "string \<Rightarrow> string" where
  "quote_line line = (if blank line then ''>'' else ''> '' @ line)"

text \<open>\<^verbatim>\<open>message.reasoning.split('\n').map(...).join('\n')\<close>: only a string has \<^verbatim>\<open>split\<close>.\<close>

fun quotedReasoning :: "jsval \<Rightarrow> error + string" where
  "quotedReasoning (Some (JStr s)) = Inr (join [nl] (map quote_line (split_nl s)))"
| "quotedReasoning v = Inl TypeError"

text \<open>\<^verbatim>\<open>message.content = text\<close>, where \<^verbatim>\<open>message\<close> is \<^verbatim>\<open>data.choices[0].message\<close>: the
  assignment changes the one object inside \<open>data\<close>, which is then serialised.\<close>

fun modify_key :: "string \<Rightarrow> (json \<Rightarrow> json) \<Rightarrow> (string \<times> json) list \<Rightarrow> (string \<times> json) list" where
  "modify_key k f [] = []"
| "modify_key k f ((k', v) # kvs) =
     (if k' = k then (k', f v) # kvs else (k', v) # modify_key k f kvs)"

fun modify_member :: "string \<Rightarrow> (json \<Rightarrow> json) \<Rightarrow> json \<Rightarrow> json" where
  "modify_member k f (JObj kvs) = JObj (modify_key k f kvs)"
| "modify_member k f v = v"

fun modify_index0 :: "(json \<Rightarrow> json) \<Rightarrow> json \<Rightarrow> json" where
  "modify_index0 f (JArr (x # xs)) = JArr (f x # xs)"
| "modify_index0 f (JObj kvs) = JObj (modify_key ''0'' f kvs)"
| "modify_index0 f v = v"

fun assign_content :: "string \<Rightarrow> json \<Rightarrow> json" where
  "assign_content text (JObj kvs) = JObj (set_key ''content'' (JStr text) kvs)"
| "assign_content text v = v"

definition with_message_content :: "json \<Rightarrow> string \<Rightarrow> json" where
  "with_message_content data text =
     modify_member ''choices'' (modify_index0 (modify_member ''message'' (assign_content text))) data"

definition message_of :: "json \<Rightarrow> jsval" where
  "message_of data = opt_member (choice0 data) ''message''"

definition rule :: string where
  "rule = ''\<newline>\<newline>---\<newline>\<newline>''"

text \<open>
  The text that replaces \<^verbatim>\<open>message.content\<close>. The versions differ in two strings: \<open>mark\<close>,
  between the index and the citation, and \<open>gap\<close>, between the reasoning and the content
  when the document has no citations.
\<close>

definition new_content :: "env \<Rightarrow> string \<Rightarrow> string \<Rightarrow> json \<Rightarrow> error + string" where
  "new_content E mark gap data =
     (case quotedReasoning (opt_member (message_of data) ''reasoning'') of
        Inl e \<Rightarrow> Inl e
      | Inr quoted \<Rightarrow>
          (case ToString_val (Number_toString E) (opt_member (message_of data) ''content'') of
             Inl e \<Rightarrow> Inl e
           | Inr content \<Rightarrow>
               (if truthy (opt_member (Some data) ''citations'') then
                  (case citations_text (Number_toString E) mark (opt_member (Some data) ''citations'') of
                     Inl e \<Rightarrow> Inl e
                   | Inr list \<Rightarrow> Inr (quoted @ rule @ content @ rule @ list))
                else Inr (quoted @ gap @ content))))"

text \<open>The body of the \<^verbatim>\<open>try\<close>: the new body, \<open>None\<close> when the \<^verbatim>\<open>if\<close> is not taken, or the
  exception. \<^verbatim>\<open>cloned.json()\<close> parses the body text.\<close>

definition rewrite_body :: "env \<Rightarrow> string \<Rightarrow> string \<Rightarrow> string \<Rightarrow> error + string option" where
  "rewrite_body E mark gap body =
     (case JSON_parse E body of
        None \<Rightarrow> Inl SyntaxError
      | Some data \<Rightarrow>
          (if truthy (opt_member (message_of data) ''reasoning'') then
             (case new_content E mark gap data of
                Inl e \<Rightarrow> Inl e
              | Inr text \<Rightarrow> Inr (Some (JSON_stringify E (with_message_content data text))))
           else Inr None))"

text \<open>What the caller gets: the response it passed in, or a new one with the status and
  headers of the original and the given body.\<close>

datatype response = Original | Rewritten string

fun respond :: "error + string option \<Rightarrow> response" where
  "respond (Inl e) = Original"
| "respond (Inr None) = Original"
| "respond (Inr (Some body)) = Rewritten body"

text \<open>Both versions of \<^verbatim>\<open>reason.js\<close> (lines 146 and 467).\<close>

definition processNonStreamingResponse_AB :: "env \<Rightarrow> string \<Rightarrow> response" where
  "processNonStreamingResponse_AB E body =
     respond (rewrite_body E '' > '' ''\<newline>\<newline>---\<newline>\<newline>---\<newline>\<newline>'' body)"

text \<open>The first version of the other file (line 208).\<close>

definition processNonStreamingResponse_C :: "env \<Rightarrow> string \<Rightarrow> response" where
  "processNonStreamingResponse_C E body =
     respond (rewrite_body E ''> '' ''\<newline>\<newline>---\<newline>\<newline>---\<newline>\<newline>'' body)"

text \<open>The second version of the other file (line 531).\<close>

definition processNonStreamingResponse_D :: "env \<Rightarrow> string \<Rightarrow> response" where
  "processNonStreamingResponse_D E body =
     respond (rewrite_body E ''> '' ''\<newline>\<newline>---\<newline>\<newline>'' body)"

section \<open>A platform to run the transformers on\<close>

text \<open>
  A parser and a serialiser for the part of JSON without fractions, exponents and
  \<^verbatim>\<open>\u\<close> escapes, on which they return what \<^verbatim>\<open>JSON.parse\<close> and \<^verbatim>\<open>JSON.stringify\<close> return
  (for objects without repeated or numeric keys). They give the general theorems, which hold
  for every platform, concrete inputs to run on.
\<close>

definition is_ws :: "char \<Rightarrow> bool" where
  "is_ws c = (c = CHR '' '' \<or> c = CHR 0x09 \<or> c = CHR 0x0A \<or> c = CHR 0x0D)"

fun skip_ws :: "string \<Rightarrow> string" where
  "skip_ws [] = []"
| "skip_ws (c # cs) = (if is_ws c then skip_ws cs else c # cs)"

definition unescape :: "char \<Rightarrow> char option" where
  "unescape c =
     (if c = CHR 0x22 then Some (CHR 0x22)
      else if c = CHR 0x5C then Some (CHR 0x5C)
      else if c = CHR ''/'' then Some (CHR ''/'')
      else if c = CHR ''b'' then Some (CHR 0x08)
      else if c = CHR ''f'' then Some (CHR 0x0C)
      else if c = CHR ''n'' then Some (CHR 0x0A)
      else if c = CHR ''r'' then Some (CHR 0x0D)
      else if c = CHR ''t'' then Some (CHR 0x09)
      else None)"

text \<open>The characters of a string literal after its opening quote, and what follows it.\<close>

fun parse_chars :: "string \<Rightarrow> (string \<times> string) option" where
  "parse_chars [] = None"
| "parse_chars [c] = (if c = CHR 0x22 then Some ([], []) else None)"
| "parse_chars (c # d # r) =
     (if c = CHR 0x22 then Some ([], d # r)
      else if c = CHR 0x5C then
        (case unescape d of
           None \<Rightarrow> None
         | Some x \<Rightarrow> (case parse_chars r of None \<Rightarrow> None | Some (s, rest) \<Rightarrow> Some (x # s, rest)))
      else if of_char c < (32 :: nat) then None
      else (case parse_chars (d # r) of None \<Rightarrow> None | Some (s, rest) \<Rightarrow> Some (c # s, rest)))"

definition is_digit :: "char \<Rightarrow> bool" where
  "is_digit c = (48 \<le> (of_char c :: nat) \<and> (of_char c :: nat) \<le> 57)"

fun digits_value :: "nat \<Rightarrow> string \<Rightarrow> nat" where
  "digits_value acc [] = acc"
| "digits_value acc (c # cs) = digits_value (10 * acc + (of_char c - 48)) cs"

text \<open>An integer literal: an optional minus sign, then \<^verbatim>\<open>0\<close> or digits that do not start
  with \<^verbatim>\<open>0\<close>, not followed by a fraction or an exponent.\<close>

definition parse_number :: "string \<Rightarrow> (json \<times> string) option" where
  "parse_number s =
     (let neg = prefix ''-'' s;
          body = (if neg then drop 1 s else s);
          ds = takeWhile is_digit body;
          rest = dropWhile is_digit body
      in if ds = [] \<or> (1 < length ds \<and> prefix ''0'' ds)
            \<or> prefix ''.'' rest \<or> prefix ''e'' rest \<or> prefix ''E'' rest then None
         else Some (JNum (if neg then - of_nat (digits_value 0 ds) else of_nat (digits_value 0 ds)), rest))"

fun parse_value :: "nat \<Rightarrow> string \<Rightarrow> (json \<times> string) option"
  and parse_elements :: "nat \<Rightarrow> string \<Rightarrow> (json list \<times> string) option"
  and parse_members :: "nat \<Rightarrow> string \<Rightarrow> ((string \<times> json) list \<times> string) option" where
  "parse_value 0 s = None"
| "parse_value (Suc n) s =
     (let t = skip_ws s in
      if prefix ''null'' t then Some (JNull, drop 4 t)
      else if prefix ''true'' t then Some (JBool True, drop 4 t)
      else if prefix ''false'' t then Some (JBool False, drop 5 t)
      else if prefix [CHR 0x22] t then
        (case parse_chars (drop 1 t) of None \<Rightarrow> None | Some (str, r) \<Rightarrow> Some (JStr str, r))
      else if prefix ''['' t then
        (if prefix '']'' (skip_ws (drop 1 t)) then Some (JArr [], drop 1 (skip_ws (drop 1 t)))
         else (case parse_elements n (drop 1 t) of None \<Rightarrow> None | Some (xs, r) \<Rightarrow> Some (JArr xs, r)))
      else if prefix ''{'' t then
        (if prefix ''}'' (skip_ws (drop 1 t)) then Some (JObj [], drop 1 (skip_ws (drop 1 t)))
         else (case parse_members n (drop 1 t) of None \<Rightarrow> None | Some (kvs, r) \<Rightarrow> Some (JObj kvs, r)))
      else parse_number t)"
| "parse_elements 0 s = None"
| "parse_elements (Suc n) s =
     (case parse_value n s of
        None \<Rightarrow> None
      | Some (x, r) \<Rightarrow>
          (let t = skip_ws r in
           if prefix '','' t then
             (case parse_elements n (drop 1 t) of None \<Rightarrow> None | Some (xs, r') \<Rightarrow> Some (x # xs, r'))
           else if prefix '']'' t then Some ([x], drop 1 t)
           else None))"
| "parse_members 0 s = None"
| "parse_members (Suc n) s =
     (let t = skip_ws s in
      if prefix [CHR 0x22] t then
        (case parse_chars (drop 1 t) of
           None \<Rightarrow> None
         | Some (k, r) \<Rightarrow>
             (if prefix '':'' (skip_ws r) then
                (case parse_value n (drop 1 (skip_ws r)) of
                   None \<Rightarrow> None
                 | Some (v, r') \<Rightarrow>
                     (let u = skip_ws r' in
                      if prefix '','' u then
                        (case parse_members n (drop 1 u) of
                           None \<Rightarrow> None
                         | Some (kvs, r'') \<Rightarrow> Some ((k, v) # kvs, r''))
                      else if prefix ''}'' u then Some ([(k, v)], drop 1 u)
                      else None))
              else None))
      else None)"

definition sample_parse :: "string \<Rightarrow> json option" where
  "sample_parse s =
     (case parse_value (Suc (length s)) s of
        None \<Rightarrow> None
      | Some (v, rest) \<Rightarrow> (if skip_ws rest = [] then Some v else None))"

definition hex_digit :: "nat \<Rightarrow> char" where
  "hex_digit n = (if n < 10 then char_of (48 + n) else char_of (87 + n))"

definition escape_char :: "char \<Rightarrow> string" where
  "escape_char c =
     (if c = CHR 0x22 then [CHR 0x5C, CHR 0x22]
      else if c = CHR 0x5C then [CHR 0x5C, CHR 0x5C]
      else if c = CHR 0x08 then [CHR 0x5C, CHR ''b'']
      else if c = CHR 0x0C then [CHR 0x5C, CHR ''f'']
      else if c = CHR 0x0A then [CHR 0x5C, CHR ''n'']
      else if c = CHR 0x0D then [CHR 0x5C, CHR ''r'']
      else if c = CHR 0x09 then [CHR 0x5C, CHR ''t'']
      else if of_char c < (32 :: nat) then
        [CHR 0x5C, CHR ''u'', CHR ''0'', CHR ''0'', hex_digit (of_char c div 16), hex_digit (of_char c mod 16)]
      else [c])"

definition quote_string :: "string \<Rightarrow> string" where
  "quote_string s = CHR 0x22 # concat (map escape_char s) @ [CHR 0x22]"

definition sample_number :: "rat \<Rightarrow> string" where
  "sample_number r = int_to_string \<lfloor>r\<rfloor>"

fun sample_stringify :: "json \<Rightarrow> string"
  and stringify_elements :: "json list \<Rightarrow> string"
  and stringify_members :: "(string \<times> json) list \<Rightarrow> string" where
  "sample_stringify JNull = ''null''"
| "sample_stringify (JBool b) = (if b then ''true'' else ''false'')"
| "sample_stringify (JNum r) = sample_number r"
| "sample_stringify (JStr s) = quote_string s"
| "sample_stringify (JArr xs) = ''['' @ stringify_elements xs @ '']''"
| "sample_stringify (JObj kvs) = ''{'' @ stringify_members kvs @ ''}''"
| "stringify_elements [] = []"
| "stringify_elements (x # xs) =
     sample_stringify x @ (if xs = [] then [] else '','' @ stringify_elements xs)"
| "stringify_members [] = []"
| "stringify_members ((k, v) # kvs) =
     quote_string k @ '':'' @ sample_stringify v @ (if kvs = [] then [] else '','' @ stringify_members kvs)"

text \<open>The clock of the sample platform reads 0 ms, 2000 ms, 4000 ms and so on: these
  readings, their differences and the quotients of those by 1000 are whole numbers, which
  are doubles, so no operation on them rounds.\<close>

definition sample_env :: env where
  "sample_env =
     \<lparr>JSON_parse = sample_parse, JSON_stringify = sample_stringify, Number_toString = sample_number,
      performance_now = (\<lambda>n. 2000 * of_nat n), GreaterThanZero = (\<lambda>v. v = JBool True),
      to_double = (\<lambda>r. r)\<rparr>"

section \<open>Notions the properties are stated with\<close>

text \<open>The lines of a text that end in a line break, and what follows the last line break.\<close>

definition complete_lines :: "string \<Rightarrow> string list" where
  "complete_lines text = butlast (split_nl text)"

definition partial_line :: "string \<Rightarrow> string" where
  "partial_line text = last (split_nl text)"

text \<open>The reasoning as a block quote, and the numbered entries of a list of citations.\<close>

definition quoted :: "string \<Rightarrow> string" where
  "quoted r = join [nl] (map quote_line (split_nl r))"

definition numbered :: "string \<Rightarrow> nat \<Rightarrow> string list \<Rightarrow> string list" where
  "numbered mark k cs = map (\<lambda>(i, c). ''['' @ nat_to_string (Suc i) @ '']'' @ mark @ c) (zip [k ..< k + length cs] cs)"

text \<open>The phase of the reasoning session, read off the two flags.\<close>

datatype phase = NotStarted | Active | Ended

definition phase :: "'a state_B_scheme \<Rightarrow> phase" where
  "phase st = (if reasoningEnded st then Ended else if reasoningStarted st then Active else NotStarted)"

text \<open>The sentinel test of the line handlers, and the value a line that is parsed decodes to.\<close>

definition is_sentinel :: "string \<Rightarrow> bool" where
  "is_sentinel line = (prefix ''data: '' line \<and> sublist ''[DONE]'' line)"

definition event_of :: "env \<Rightarrow> string \<Rightarrow> json option" where
  "event_of E line =
     (if prefix ''data: '' line \<and> \<not> sublist ''[DONE]'' line then JSON_parse E (drop 6 line) else None)"

text \<open>The citations of a line that is parsed, and whether its delta has a reasoning field.\<close>

definition cit_of :: "env \<Rightarrow> string \<Rightarrow> jsval" where
  "cit_of E line = (case event_of E line of None \<Rightarrow> None | Some data \<Rightarrow> opt_member (Some data) ''citations'')"

definition carries_reasoning :: "env \<Rightarrow> string \<Rightarrow> bool" where
  "carries_reasoning E line =
     (case event_of E line of None \<Rightarrow> False | Some data \<Rightarrow> opt_member (delta_of data) ''reasoning'' \<noteq> None)"

text \<open>The number of citation footers among the events, and the footers the versions build
  for a list of citation strings.\<close>

definition footers :: "emitted list \<Rightarrow> nat" where
  "footers out = length (filter (\<lambda>e. case e of Footer j \<Rightarrow> True | _ \<Rightarrow> False) out)"

definition footer_AB :: "string list \<Rightarrow> emitted" where
  "footer_AB cs = Footer (JObj [(''citations'', JStr (join [nl] (numbered '' > '' 0 cs)))])"

definition footer_C :: "string list \<Rightarrow> emitted" where
  "footer_C cs =
     Footer (only_delta (''\<newline>\<newline>---\<newline>\<newline>Sources:\<newline>'' @ join [nl] (numbered ''> '' 0 cs)))"

text \<open>
  The number of headers and of duration separators among the events, and the lines the
  versions take for a reasoning fragment: a parsed data line whose delta has truthy reasoning
  and a content that is null (second version of reason.js) or falsy (first version of the
  other file). A content line is a parsed data line whose delta has truthy content.
\<close>

definition headers :: "emitted list \<Rightarrow> nat" where
  "headers out = length (filter (\<lambda>e. case e of Header j \<Rightarrow> True | _ \<Rightarrow> False) out)"

definition separators :: "emitted list \<Rightarrow> nat" where
  "separators out = length (filter (\<lambda>e. case e of Separator j \<Rightarrow> True | _ \<Rightarrow> False) out)"

definition reasoning_line_B :: "env \<Rightarrow> string \<Rightarrow> bool" where
  "reasoning_line_B E line =
     (case event_of E line of
        None \<Rightarrow> False
      | Some data \<Rightarrow> truthy (opt_member (delta_of data) ''reasoning'')
                     \<and> opt_member (delta_of data) ''content'' = Some JNull)"

definition reasoning_line_C :: "env \<Rightarrow> string \<Rightarrow> bool" where
  "reasoning_line_C E line =
     (case event_of E line of
        None \<Rightarrow> False
      | Some data \<Rightarrow> truthy (opt_member (delta_of data) ''reasoning'')
                     \<and> \<not> truthy (opt_member (delta_of data) ''content''))"

definition content_line :: "env \<Rightarrow> string \<Rightarrow> bool" where
  "content_line E line =
     (case event_of E line of
        None \<Rightarrow> False
      | Some data \<Rightarrow> truthy (opt_member (delta_of data) ''content''))"

text \<open>The lines that end the reasoning phase when it is active: the delta is truthy, the
  line is not a reasoning fragment, and the content is not null (second version of
  reason.js) or not undefined (first version of the other file).\<close>

definition ends_B :: "env \<Rightarrow> string \<Rightarrow> bool" where
  "ends_B E line =
     (case event_of E line of
        None \<Rightarrow> False
      | Some data \<Rightarrow> truthy (delta_of data) \<and> \<not> reasoning_line_B E line
                     \<and> opt_member (delta_of data) ''content'' \<noteq> Some JNull)"

definition ends_C :: "env \<Rightarrow> string \<Rightarrow> bool" where
  "ends_C E line =
     (case event_of E line of
        None \<Rightarrow> False
      | Some data \<Rightarrow> truthy (delta_of data) \<and> \<not> reasoning_line_C E line
                     \<and> opt_member (delta_of data) ''content'' \<noteq> None)"

text \<open>Every reasoning fragment of a list of events comes after a header of the list, or a
  header was sent before (\<open>h\<close>).\<close>

fun fragments_headed :: "bool \<Rightarrow> emitted list \<Rightarrow> bool" where
  "fragments_headed h [] = True"
| "fragments_headed h (Header j # out) = fragments_headed True out"
| "fragments_headed h (Reasoning j # out) = (h \<and> fragments_headed h out)"
| "fragments_headed h (e # out) = fragments_headed h out"

text \<open>What a line handler does to the two flags and which markers it sends, in terms of
  the lines \<open>isR\<close> it takes for reasoning and the lines \<open>isS\<close> that end the phase.\<close>

definition marks ::
  "('a state_B_scheme \<Rightarrow> string \<Rightarrow> emitted list \<times> (error + 'a state_B_scheme))
     \<Rightarrow> (string \<Rightarrow> bool) \<Rightarrow> (string \<Rightarrow> bool) \<Rightarrow> bool" where
  "marks f isR isS =
     (\<forall>st l. case f st l of (out, r) \<Rightarrow>
        headers out = (if isR l \<and> \<not> reasoningStarted st then 1 else 0)
      \<and> separators out = (if isS l \<and> reasoningStarted st \<and> \<not> reasoningEnded st then 1 else 0)
      \<and> fragments_headed (reasoningStarted st) out
      \<and> (\<forall>st'. r = Inr st' \<longrightarrow>
            reasoningStarted st' = (reasoningStarted st \<or> isR l)
          \<and> reasoningEnded st' = (reasoningEnded st \<or> (isS l \<and> reasoningStarted st)))
      \<and> (isR l \<longrightarrow> \<not> isS l)
      \<and> (isS l \<longrightarrow> (\<exists>st'. r = Inr st')
            \<and> (\<exists>pre. out = pre @ [Forwarded l] \<and> separators pre = separators out)))"

text \<open>What the second version of the other file sends for a line that is not parsed, and for
  a line that is parsed to an object without truthy citations, outside the reasoning phase:
  the line itself, and the event serialised again.\<close>

definition reserialised :: "env \<Rightarrow> string \<Rightarrow> emitted" where
  "reserialised E line =
     (case event_of E line of None \<Rightarrow> Forwarded line | Some data \<Rightarrow> Cleaned data)"

section \<open>Line buffering\<close>

lemma split_from_nonempty: "split_from cur s \<noteq> []"
  by (induction s arbitrary: cur) auto

lemma split_from_append:
  "split_from cur (a @ b) = butlast (split_from cur a) @ split_from (last (split_from cur a)) b"
  by (induction a arbitrary: cur) (auto simp: split_from_nonempty)

lemma split_from_buffer: "nl \<notin> set buf \<Longrightarrow> split_from cur (buf @ s) = split_from (cur @ buf) s"
  by (induction buf arbitrary: cur) auto

lemma last_split_from_no_nl: "nl \<notin> set cur \<Longrightarrow> nl \<notin> set (last (split_from cur s))"
  by (induction s arbitrary: cur) (auto simp: split_from_nonempty)

lemma butlast_split_from_no_nl:
  "nl \<notin> set cur \<Longrightarrow> \<forall>l \<in> set (butlast (split_from cur s)). nl \<notin> set l"
proof (induction s arbitrary: cur)
  case Nil
  then show ?case by simp
next
  case (Cons c s)
  show ?case
  proof (cases "c = nl")
    case True
    have "\<forall>l \<in> set (butlast (split_from [] s)). nl \<notin> set l"
      by (rule Cons.IH) simp
    with True Cons.prems show ?thesis
      by (simp add: split_from_nonempty)
  next
    case False
    have "\<forall>l \<in> set (butlast (split_from (cur @ [c]) s)). nl \<notin> set l"
      by (rule Cons.IH) (use Cons.prems False in simp)
    with False show ?thesis by simp
  qed
qed

lemma split_from_rebuild:
  "concat (map (\<lambda>l. l @ [nl]) (butlast (split_from cur s))) @ last (split_from cur s) = cur @ s"
  by (induction s arbitrary: cur) (auto simp: split_from_nonempty)

lemma pop_split_from: "pop (split_from cur s) = (Some (last (split_from cur s)), butlast (split_from cur s))"
  by (cases "split_from cur s") (auto simp: split_from_nonempty)

lemma or_empty_Some: "or_empty (Some s) = s"
  by simp

lemma for_lines_append:
  "for_lines f st (xs @ ys) =
     (case for_lines f st xs of
        (out, Inl e) \<Rightarrow> (out, Inl e)
      | (out, Inr st') \<Rightarrow> (case for_lines f st' ys of (out', r) \<Rightarrow> (out @ out', r)))"
  by (induction xs arbitrary: st) (auto split: prod.splits sum.splits)

lemma read_loop_lines:
  "nl \<notin> set buf \<Longrightarrow>
   read_loop f st buf chunks =
     (case for_lines f st (butlast (split_from buf (concat chunks))) of
        (out, Inl e) \<Rightarrow> (out, Inl e)
      | (out, Inr st') \<Rightarrow> (out, Inr (st', last (split_from buf (concat chunks)))))"
proof (induction chunks arbitrary: st buf)
  case Nil
  then show ?case by simp
next
  case (Cons c cs)
  let ?P = "split_from buf c"
  have sp: "split_nl (buf @ c) = ?P"
    using Cons.prems by (simp add: split_nl_def split_from_buffer [of buf "[]", simplified])
  have clean: "nl \<notin> set (last ?P)"
    using Cons.prems by (rule last_split_from_no_nl)
  have whole: "split_from buf (concat (c # cs)) = butlast ?P @ split_from (last ?P) (concat cs)"
    by (simp add: split_from_append)
  have bl: "butlast (split_from buf (concat (c # cs))) = butlast ?P @ butlast (split_from (last ?P) (concat cs))"
    unfolding whole by (simp add: butlast_append split_from_nonempty)
  have la: "last (split_from buf (concat (c # cs))) = last (split_from (last ?P) (concat cs))"
    unfolding whole by (simp add: split_from_nonempty)
  show ?case
    unfolding bl la for_lines_append
    by (simp add: sp pop_split_from Cons.IH [OF clean] split: prod.splits sum.splits)
qed

lemma read_loop_text:
  "read_loop f st [] chunks =
     (case for_lines f st (complete_lines (concat chunks)) of
        (out, Inl e) \<Rightarrow> (out, Inl e)
      | (out, Inr st') \<Rightarrow> (out, Inr (st', partial_line (concat chunks))))"
  unfolding complete_lines_def partial_line_def split_nl_def
  by (rule read_loop_lines) simp

lemma read_loop_same:
  "concat chunks = concat chunks' \<Longrightarrow> read_loop f st [] chunks = read_loop f st [] chunks'"
  unfolding read_loop_text by simp

text \<open>
  Claim C5. However the text of a response is cut into chunks, the read loop hands the same
  lines to the line handler, with the same result: the loop is the line handler run over the
  lines of the whole text that end in a line break, and it leaves in the buffer what follows
  the last line break. So all four transformers return the same events for two chunkings of
  one text. The complete lines and the rest make up the text again and hold no line break.
\<close>

theorem chunking_invariant:
  assumes "concat chunks = concat chunks'"
  shows "read_loop f st [] chunks = read_loop f st [] chunks'
    \<and> read_loop f st [] chunks =
        (case for_lines f st (complete_lines (concat chunks)) of
           (out, Inl e) \<Rightarrow> (out, Inl e)
         | (out, Inr st') \<Rightarrow> (out, Inr (st', partial_line (concat chunks))))
    \<and> concat (map (\<lambda>l. l @ [nl]) (complete_lines (concat chunks))) @ partial_line (concat chunks)
        = concat chunks
    \<and> nl \<notin> set (partial_line (concat chunks))
    \<and> (\<forall>l \<in> set (complete_lines (concat chunks)). nl \<notin> set l)
    \<and> processStreamingResponse_A E chunks = processStreamingResponse_A E chunks'
    \<and> processStreamingResponse_B E chunks = processStreamingResponse_B E chunks'
    \<and> processStreamingResponse_C E chunks = processStreamingResponse_C E chunks'
    \<and> processStreamingResponse_D E chunks = processStreamingResponse_D E chunks'"
proof -
  have A: "processStreamingResponse_A E chunks = processStreamingResponse_A E chunks'"
    unfolding processStreamingResponse_A_def read_loop_same [OF assms] by (rule refl)
  have B: "processStreamingResponse_B E chunks = processStreamingResponse_B E chunks'"
    unfolding processStreamingResponse_B_def read_loop_same [OF assms] by (rule refl)
  have C: "processStreamingResponse_C E chunks = processStreamingResponse_C E chunks'"
    unfolding processStreamingResponse_C_def read_loop_same [OF assms] by (rule refl)
  have D: "processStreamingResponse_D E chunks = processStreamingResponse_D E chunks'"
    unfolding processStreamingResponse_D_def read_loop_same [OF assms] by (rule refl)
  have rebuild: "concat (map (\<lambda>l. l @ [nl]) (complete_lines (concat chunks))) @ partial_line (concat chunks)
        = concat chunks"
    unfolding complete_lines_def partial_line_def split_nl_def
    using split_from_rebuild [of "[]" "concat chunks"] by simp
  have clean: "nl \<notin> set (partial_line (concat chunks))"
    unfolding partial_line_def split_nl_def by (rule last_split_from_no_nl) simp
  have lines: "\<forall>l \<in> set (complete_lines (concat chunks)). nl \<notin> set l"
    unfolding complete_lines_def split_nl_def by (rule butlast_split_from_no_nl) simp
  show ?thesis
    by (intro conjI read_loop_same [OF assms] read_loop_text rebuild clean lines A B C D)
qed

theorem chunking_invariant_witness:
  "concat [''ab'', ''c\<newline>d''] = concat [''a'', ''bc\<newline>'', ''d'']
   \<and> processStreamingResponse_A sample_env [''ab'', ''c\<newline>d'']
       = processStreamingResponse_A sample_env [''a'', ''bc\<newline>'', ''d'']
   \<and> nl \<notin> set (partial_line (concat [''ab'', ''c\<newline>d'']))"
  using chunking_invariant [of "[''ab'', ''c\<newline>d'']" "[''a'', ''bc\<newline>'', ''d'']"
      "process_line_A sample_env" init_A sample_env]
  by simp

text \<open>
  Claim C10. When the transport reports completion, what the buffer holds is not sent: if the
  text of a response is \<open>text\<close> followed by \<open>tail\<close>, where \<open>text\<close> is empty or ends in a line
  break and \<open>tail\<close> holds none, then the buffer ends up holding \<open>tail\<close>, and every transformer
  returns what it returns for \<open>text\<close> alone, whatever \<open>tail\<close> is.
\<close>

theorem unterminated_line_dropped:
  assumes "concat chunks = text @ tail" and "nl \<notin> set tail" and "text = [] \<or> last text = nl"
  shows "partial_line (concat chunks) = tail
    \<and> complete_lines (concat chunks) = complete_lines text
    \<and> processStreamingResponse_A E chunks = processStreamingResponse_A E [text]
    \<and> processStreamingResponse_B E chunks = processStreamingResponse_B E [text]
    \<and> processStreamingResponse_C E chunks = processStreamingResponse_C E [text]
    \<and> processStreamingResponse_D E chunks = processStreamingResponse_D E [text]"
proof -
  have sp: "split_from [] (text @ tail) = butlast (split_from [] text) @ [last (split_from [] text) @ tail]"
    using assms(2) split_from_buffer [of tail "last (split_from [] text)" "[]"]
    by (simp add: split_from_append)
  have ends: "last (split_from [] text) = []"
  proof (cases "text = []")
    case True
    then show ?thesis by simp
  next
    case False
    with assms(3) obtain t where "text = t @ [nl]"
      by (metis append_butlast_last_id)
    then show ?thesis
      by (simp add: split_from_append split_from_nonempty)
  qed
  have pl: "partial_line (concat chunks) = tail"
    by (simp add: partial_line_def split_nl_def assms(1) sp ends)
  have cl: "complete_lines (concat chunks) = complete_lines text"
    by (simp add: complete_lines_def split_nl_def assms(1) sp butlast_append)
  have one: "complete_lines (concat [text]) = complete_lines text"
    by simp
  show ?thesis
    unfolding processStreamingResponse_A_def processStreamingResponse_B_def
      processStreamingResponse_C_def processStreamingResponse_D_def read_loop_text cl one
    using pl cl by (simp split: prod.splits sum.splits)
qed

theorem unterminated_line_dropped_witness:
  "concat [''x\<newline>ta'', ''il''] = ''x\<newline>'' @ ''tail'' \<and> nl \<notin> set ''tail''
   \<and> (''x\<newline>'' = [] \<or> last ''x\<newline>'' = nl)
   \<and> partial_line (concat [''x\<newline>ta'', ''il'']) = ''tail''
   \<and> processStreamingResponse_B sample_env [''x\<newline>ta'', ''il'']
       = processStreamingResponse_B sample_env [''x\<newline>'']"
  using unterminated_line_dropped [of "[''x\<newline>ta'', ''il'']" "''x\<newline>''" "''tail''" sample_env]
  by simp

section \<open>Lines that do not parse\<close>

lemma for_lines_skip:
  assumes "\<And>s. f s line = ([Forwarded line], Inr s)"
  shows "for_lines f st (before @ line # rest) =
     (case for_lines f st before of
        (out, Inl e) \<Rightarrow> (out, Inl e)
      | (out, Inr st') \<Rightarrow>
          (case for_lines f st' rest of (out', r) \<Rightarrow> (out @ Forwarded line # out', r)))"
  by (simp add: for_lines_append assms split: prod.splits sum.splits)

lemma for_lines_continues:
  assumes "\<And>st x. \<exists>out st'. f st x = (out, Inr st')"
  shows "\<exists>out st'. for_lines f st ls = (out, Inr st')"
proof (induction ls arbitrary: st)
  case Nil
  then show ?case by simp
next
  case (Cons x ls)
  obtain o1 s1 where one: "f st x = (o1, Inr s1)"
    using assms [of st x] by blast
  obtain o2 s2 where rest: "for_lines f s1 ls = (o2, Inr s2)"
    using Cons.IH [of s1] by blast
  show ?case
    by (simp add: one rest)
qed

lemma catch_forward_continues: "\<exists>out st'. catch_forward line r = (out, Inr st')"
proof -
  obtain out st e where "r = (out, st, e)"
    by (cases r)
  then show ?thesis
    by (cases e) (simp_all add: catch_forward_def)
qed

lemma process_line_C_continues: "\<exists>out st'. process_line_C E st x = (out, Inr st')"
  using catch_forward_continues [of x "try_C E st x"] by (simp add: process_line_C_def)

lemma process_line_D_continues: "\<exists>out st'. process_line_D E st x = (out, Inr st')"
  using catch_forward_continues [of x "try_D E st x"] by (simp add: process_line_D_def)

text \<open>
  Claim C6. Let a complete line of a response start with the marker, not be the sentinel and
  not parse. Every line handler passes the line on as it came, marker included, leaves its
  state as it was and does not throw. So each of the four transformers sends what it sends
  for the lines before, then the line, then what it sends for the lines after it from the
  state the lines before left, and ends as those lines and the end of the transport make it
  end: the line neither closes nor fails the stream. The two versions of the other file,
  whose loops never throw, send the line in every response; the two versions of reason.js
  send it whenever the loop gets to it.
\<close>

theorem malformed_line_forwarded:
  assumes "complete_lines (concat chunks) = before @ line # rest"
    and "prefix ''data: '' line" and "\<not> sublist ''[DONE]'' line"
    and "JSON_parse E (drop 6 line) = None"
  shows "processStreamingResponse_A E chunks =
        (case for_lines (process_line_A E) init_A before of
           (out, Inl e) \<Rightarrow> (out, Errored)
         | (out, Inr st') \<Rightarrow>
             (case for_lines (process_line_A E) st' rest of
                (out', Inl e) \<Rightarrow> (out @ Forwarded line # out', Errored)
              | (out', Inr st'') \<Rightarrow>
                  (case finish_AB E st'' of (fin, oc) \<Rightarrow> (out @ Forwarded line # out' @ fin, oc))))
    \<and> processStreamingResponse_B E chunks =
        (case for_lines (process_line_B E) init_B before of
           (out, Inl e) \<Rightarrow> (out, Errored)
         | (out, Inr st') \<Rightarrow>
             (case for_lines (process_line_B E) st' rest of
                (out', Inl e) \<Rightarrow> (out @ Forwarded line # out', Errored)
              | (out', Inr st'') \<Rightarrow>
                  (case finish_AB E st'' of (fin, oc) \<Rightarrow> (out @ Forwarded line # out' @ fin, oc))))
    \<and> processStreamingResponse_C E chunks =
        (case for_lines (process_line_C E) init_C before of
           (out, Inl e) \<Rightarrow> (out, Errored)
         | (out, Inr st') \<Rightarrow>
             (case for_lines (process_line_C E) st' rest of
                (out', Inl e) \<Rightarrow> (out @ Forwarded line # out', Errored)
              | (out', Inr st'') \<Rightarrow>
                  (case finish_C E st'' of (fin, oc) \<Rightarrow> (out @ Forwarded line # out' @ fin, oc))))
    \<and> processStreamingResponse_D E chunks =
        (case for_lines (process_line_D E) init_D before of
           (out, Inl e) \<Rightarrow> (out, Errored)
         | (out, Inr st') \<Rightarrow>
             (case for_lines (process_line_D E) st' rest of
                (out', Inl e) \<Rightarrow> (out @ Forwarded line # out', Errored)
              | (out', Inr st'') \<Rightarrow>
                  (case finish_D E st'' of (fin, oc) \<Rightarrow> (out @ Forwarded line # out' @ fin, oc))))
    \<and> ((\<exists>out st'. for_lines (process_line_A E) init_A before = (out, Inr st')) \<longrightarrow>
          Forwarded line \<in> set (fst (processStreamingResponse_A E chunks)))
    \<and> ((\<exists>out st'. for_lines (process_line_B E) init_B before = (out, Inr st')) \<longrightarrow>
          Forwarded line \<in> set (fst (processStreamingResponse_B E chunks)))
    \<and> Forwarded line \<in> set (fst (processStreamingResponse_C E chunks))
    \<and> Forwarded line \<in> set (fst (processStreamingResponse_D E chunks))
    \<and> wire E (Forwarded line) = line @ [nl]
    \<and> process_line_A E stA line = ([Forwarded line], Inr stA)
    \<and> process_line_B E stB line = ([Forwarded line], Inr stB)
    \<and> process_line_C E stC line = ([Forwarded line], Inr stC)
    \<and> process_line_D E stD line = ([Forwarded line], Inr stD)"
proof -
  have A: "process_line_A E s line = ([Forwarded line], Inr s)" for s
    using assms(2,3,4) by (simp add: process_line_A_def try_A_def catch_forward_def)
  have B: "process_line_B E s line = ([Forwarded line], Inr s)" for s
    using assms(2,3,4) by (simp add: process_line_B_def try_B_def catch_forward_def)
  have C: "process_line_C E s line = ([Forwarded line], Inr s)" for s
    using assms(2,3,4) by (simp add: process_line_C_def try_C_def catch_forward_def)
  have D: "process_line_D E s line = ([Forwarded line], Inr s)" for s
    using assms(2,3,4) by (simp add: process_line_D_def try_D_def catch_forward_def)
  have W: "wire E (Forwarded line) = line @ [nl]"
    by simp
  have sA: "processStreamingResponse_A E chunks =
        (case for_lines (process_line_A E) init_A before of
           (out, Inl e) \<Rightarrow> (out, Errored)
         | (out, Inr st') \<Rightarrow>
             (case for_lines (process_line_A E) st' rest of
                (out', Inl e) \<Rightarrow> (out @ Forwarded line # out', Errored)
              | (out', Inr st'') \<Rightarrow>
                  (case finish_AB E st'' of (fin, oc) \<Rightarrow> (out @ Forwarded line # out' @ fin, oc))))"
    unfolding processStreamingResponse_A_def read_loop_text assms(1) for_lines_skip [of "process_line_A E", OF A]
    by (simp split: prod.splits sum.splits)
  have sB: "processStreamingResponse_B E chunks =
        (case for_lines (process_line_B E) init_B before of
           (out, Inl e) \<Rightarrow> (out, Errored)
         | (out, Inr st') \<Rightarrow>
             (case for_lines (process_line_B E) st' rest of
                (out', Inl e) \<Rightarrow> (out @ Forwarded line # out', Errored)
              | (out', Inr st'') \<Rightarrow>
                  (case finish_AB E st'' of (fin, oc) \<Rightarrow> (out @ Forwarded line # out' @ fin, oc))))"
    unfolding processStreamingResponse_B_def read_loop_text assms(1) for_lines_skip [of "process_line_B E", OF B]
    by (simp split: prod.splits sum.splits)
  have sC: "processStreamingResponse_C E chunks =
        (case for_lines (process_line_C E) init_C before of
           (out, Inl e) \<Rightarrow> (out, Errored)
         | (out, Inr st') \<Rightarrow>
             (case for_lines (process_line_C E) st' rest of
                (out', Inl e) \<Rightarrow> (out @ Forwarded line # out', Errored)
              | (out', Inr st'') \<Rightarrow>
                  (case finish_C E st'' of (fin, oc) \<Rightarrow> (out @ Forwarded line # out' @ fin, oc))))"
    unfolding processStreamingResponse_C_def read_loop_text assms(1) for_lines_skip [of "process_line_C E", OF C]
    by (simp split: prod.splits sum.splits)
  have sD: "processStreamingResponse_D E chunks =
        (case for_lines (process_line_D E) init_D before of
           (out, Inl e) \<Rightarrow> (out, Errored)
         | (out, Inr st') \<Rightarrow>
             (case for_lines (process_line_D E) st' rest of
                (out', Inl e) \<Rightarrow> (out @ Forwarded line # out', Errored)
              | (out', Inr st'') \<Rightarrow>
                  (case finish_D E st'' of (fin, oc) \<Rightarrow> (out @ Forwarded line # out' @ fin, oc))))"
    unfolding processStreamingResponse_D_def read_loop_text assms(1) for_lines_skip [of "process_line_D E", OF D]
    by (simp split: prod.splits sum.splits)
  have inA: "(\<exists>out st'. for_lines (process_line_A E) init_A before = (out, Inr st')) \<longrightarrow>
          Forwarded line \<in> set (fst (processStreamingResponse_A E chunks))"
    unfolding sA by (auto split: prod.splits sum.splits)
  have inB: "(\<exists>out st'. for_lines (process_line_B E) init_B before = (out, Inr st')) \<longrightarrow>
          Forwarded line \<in> set (fst (processStreamingResponse_B E chunks))"
    unfolding sB by (auto split: prod.splits sum.splits)
  have inC: "Forwarded line \<in> set (fst (processStreamingResponse_C E chunks))"
    unfolding sC
    using for_lines_continues [of "process_line_C E" init_C before, OF process_line_C_continues]
    by (auto split: prod.splits sum.splits)
  have inD: "Forwarded line \<in> set (fst (processStreamingResponse_D E chunks))"
    unfolding sD
    using for_lines_continues [of "process_line_D E" init_D before, OF process_line_D_continues]
    by (auto split: prod.splits sum.splits)
  show ?thesis
    by (intro conjI sA sB sC sD inA inB inC inD W A B C D)
qed

theorem malformed_line_forwarded_witness:
  \<open>complete_lines (concat [''data: {"choices":\<newline>da'', ''ta: [DONE]\<newline>''])
     = [] @ ''data: {"choices":'' # [''data: [DONE]'']
   \<and> prefix ''data: '' ''data: {"choices":'' \<and> \<not> sublist ''[DONE]'' ''data: {"choices":''
   \<and> JSON_parse sample_env (drop 6 ''data: {"choices":'') = None
   \<and> processStreamingResponse_C sample_env [''data: {"choices":\<newline>da'', ''ta: [DONE]\<newline>'']
       = ([Forwarded ''data: {"choices":'', Forwarded ''data: [DONE]''], Closed)
   \<and> Forwarded ''data: {"choices":''
       \<in> set (fst (processStreamingResponse_D sample_env [''data: {"choices":\<newline>da'', ''ta: [DONE]\<newline>'']))\<close>
proof -
  let ?chunks = \<open>[''data: {"choices":\<newline>da'', ''ta: [DONE]\<newline>'']\<close>
  have h0: \<open>complete_lines (concat ?chunks) = [] @ ''data: {"choices":'' # [''data: [DONE]'']\<close>
    by code_simp
  have h1: \<open>prefix ''data: '' ''data: {"choices":''\<close>
    by simp
  have h2: \<open>\<not> sublist ''[DONE]'' ''data: {"choices":''\<close>
    by code_simp
  have h3: \<open>JSON_parse sample_env (drop 6 ''data: {"choices":'') = None\<close>
    by code_simp
  have rest: "for_lines (process_line_C sample_env) init_C [''data: [DONE]'']
      = ([Forwarded ''data: [DONE]''], Inr init_C)"
    by code_simp
  have fin: "finish_C sample_env init_C = ([], Closed)"
    by code_simp
  note facts = malformed_line_forwarded [OF h0 h1 h2 h3]
  have c: \<open>processStreamingResponse_C sample_env ?chunks
       = ([Forwarded ''data: {"choices":'', Forwarded ''data: [DONE]''], Closed)\<close>
    unfolding facts [THEN conjunct2, THEN conjunct2, THEN conjunct1]
      for_lines.simps(1) prod.case sum.case rest fin
    by simp
  have d: \<open>Forwarded ''data: {"choices":'' \<in> set (fst (processStreamingResponse_D sample_env ?chunks))\<close>
    using facts by blast
  from h0 h1 h2 h3 c d show ?thesis
    by blast
qed

section \<open>The non-streaming transformers: properties\<close>

lemma citation_entries_strings:
  "citation_entries num mark k (map JStr cs) = Inr (numbered mark k cs)"
proof (induction cs arbitrary: k)
  case Nil
  then show ?case by (simp add: numbered_def)
next
  case (Cons c cs)
  have "[k ..< k + length (c # cs)] = k # [Suc k ..< Suc k + length cs]"
    by (simp add: upt_rec)
  then show ?case
    using Cons.IH [of "Suc k"] by (simp add: numbered_def)
qed

lemma citations_text_strings:
  "citations_text num mark (Some (JArr (map JStr cs))) = Inr (join [nl] (numbered mark 0 cs))"
  by (simp add: citation_entries_strings)

lemma numbered_nth:
  "i < length cs \<Longrightarrow> numbered mark k cs ! i = ''['' @ nat_to_string (Suc (k + i)) @ '']'' @ mark @ cs ! i"
  by (simp add: numbered_def)

lemma length_numbered: "length (numbered mark k cs) = length cs"
  by (simp add: numbered_def)

lemma map_of_modify_key:
  "map_of (modify_key k f kvs) k' = (if k' = k then map_option f (map_of kvs k) else map_of kvs k')"
  by (induction kvs) auto

lemma map_of_set_key: "map_of (set_key k v kvs) k' = (if k' = k then Some v else map_of kvs k')"
  by (induction kvs) auto

lemma opt_index0_Some: "opt_index0 (Some v) = index0 v"
  by (cases v) simp_all

lemma opt_member_Some: "opt_member (Some v) k = member v k"
  by (cases v) simp_all

lemma message_after_assignment:
  assumes "message_of data = Some (JObj m)"
  shows "opt_member (message_of (with_message_content data text)) ''content'' = Some (JStr text)"
proof -
  obtain d where d: "data = JObj d"
    using assms by (cases data) (auto simp: message_of_def choice0_def)
  obtain ch where ch: "map_of d ''choices'' = Some ch"
    using assms d by (cases "map_of d ''choices''") (auto simp: message_of_def choice0_def)
  obtain c0 where c0: "index0 ch = Some (JObj c0)" and m: "map_of c0 ''message'' = Some (JObj m)"
  proof -
    have "opt_member (opt_index0 (Some ch)) ''message'' = Some (JObj m)"
      using assms d ch by (simp add: message_of_def choice0_def)
    then obtain v where v: "opt_index0 (Some ch) = Some v" "opt_member (Some v) ''message'' = Some (JObj m)"
      by (cases "opt_index0 (Some ch)") auto
    then obtain c0 where "v = JObj c0"
      by (cases v) auto
    with v have "index0 ch = Some (JObj c0)" "map_of c0 ''message'' = Some (JObj m)"
      by (cases ch; simp)+
    then show ?thesis using that by blast
  qed
  have i0: "index0 (modify_index0 f ch) = Some (f (JObj c0))" for f
    using c0 by (cases ch rule: index0.cases) (auto simp: map_of_modify_key)
  show ?thesis
    using d ch m
    by (simp add: with_message_content_def message_of_def choice0_def map_of_modify_key
        opt_index0_Some opt_member_Some i0 map_of_set_key)
qed


lemma respond_new_content:
  assumes "JSON_parse E body = Some data" and "truthy (opt_member (message_of data) ''reasoning'')"
  shows "respond (rewrite_body E mark gap body) =
     (case new_content E mark gap data of
        Inl e \<Rightarrow> Original
      | Inr text \<Rightarrow> Rewritten (JSON_stringify E (with_message_content data text)))"
  using assms by (simp add: rewrite_body_def split: sum.splits)

lemma respond_no_reasoning:
  assumes "JSON_parse E body = Some data" and "\<not> truthy (opt_member (message_of data) ''reasoning'')"
  shows "respond (rewrite_body E mark gap body) = Original"
  using assms by (simp add: rewrite_body_def)

lemma new_content_plain:
  assumes "opt_member (message_of data) ''reasoning'' = Some (JStr r)"
    and "ToString_val (Number_toString E) (opt_member (message_of data) ''content'') = Inr c"
    and "\<not> truthy (opt_member (Some data) ''citations'')"
  shows "new_content E mark gap data = Inr (quoted r @ gap @ c)"
  using assms by (simp add: new_content_def quoted_def)

lemma new_content_cited:
  assumes "opt_member (message_of data) ''reasoning'' = Some (JStr r)"
    and "ToString_val (Number_toString E) (opt_member (message_of data) ''content'') = Inr c"
    and "opt_member (Some data) ''citations'' = Some (JArr (map JStr cs))"
  shows "new_content E mark gap data = Inr (quoted r @ rule @ c @ rule @ join [nl] (numbered mark 0 cs))"
  using assms by (simp add: new_content_def quoted_def citation_entries_strings)

text \<open>
  Claim C8, as the code has it. When the first choice's message has no truthy reasoning, the
  response is returned as it came. When the reasoning is a non-empty string \<open>r\<close> and the content
  prints as \<open>c\<close>: without truthy citations the new content is the quoted reasoning, two rules
  and \<open>c\<close> in both versions of reason.js and in the first version of the other file, and
  the quoted reasoning, one rule and \<open>c\<close> in its second version; with a list of citation strings
  it is the quoted reasoning, a rule, \<open>c\<close>, a rule and the numbered citations, one per line, the
  i-th as \<^verbatim>\<open>[i] > citation\<close> in reason.js and \<^verbatim>\<open>[i]> citation\<close> in the other file, i counting
  from 1. The new content is what the message of the serialised document holds. The quoted
  reasoning is the reasoning split at line breaks, a line of white space replaced by \<^verbatim>\<open>>\<close> and
  any other line prefixed with \<^verbatim>\<open>> \<close>.
\<close>

theorem batch_content:
  assumes "JSON_parse E body = Some data"
  shows "(\<not> truthy (opt_member (message_of data) ''reasoning'') \<longrightarrow>
            processNonStreamingResponse_AB E body = Original
          \<and> processNonStreamingResponse_C E body = Original
          \<and> processNonStreamingResponse_D E body = Original)
    \<and> (opt_member (message_of data) ''reasoning'' = Some (JStr r) \<and> r \<noteq> []
        \<and> ToString_val (Number_toString E) (opt_member (message_of data) ''content'') = Inr c
        \<and> \<not> truthy (opt_member (Some data) ''citations'') \<longrightarrow>
            processNonStreamingResponse_AB E body = Rewritten (JSON_stringify E (with_message_content data
              (quoted r @ ''\<newline>\<newline>---\<newline>\<newline>---\<newline>\<newline>'' @ c)))
          \<and> processNonStreamingResponse_C E body = Rewritten (JSON_stringify E (with_message_content data
              (quoted r @ ''\<newline>\<newline>---\<newline>\<newline>---\<newline>\<newline>'' @ c)))
          \<and> processNonStreamingResponse_D E body = Rewritten (JSON_stringify E (with_message_content data
              (quoted r @ ''\<newline>\<newline>---\<newline>\<newline>'' @ c))))
    \<and> (opt_member (message_of data) ''reasoning'' = Some (JStr r) \<and> r \<noteq> []
        \<and> ToString_val (Number_toString E) (opt_member (message_of data) ''content'') = Inr c
        \<and> opt_member (Some data) ''citations'' = Some (JArr (map JStr cs)) \<longrightarrow>
            processNonStreamingResponse_AB E body = Rewritten (JSON_stringify E (with_message_content data
              (quoted r @ ''\<newline>\<newline>---\<newline>\<newline>'' @ c @ ''\<newline>\<newline>---\<newline>\<newline>''
                 @ join [nl] (numbered '' > '' 0 cs))))
          \<and> processNonStreamingResponse_C E body = Rewritten (JSON_stringify E (with_message_content data
              (quoted r @ ''\<newline>\<newline>---\<newline>\<newline>'' @ c @ ''\<newline>\<newline>---\<newline>\<newline>''
                 @ join [nl] (numbered ''> '' 0 cs))))
          \<and> processNonStreamingResponse_D E body = Rewritten (JSON_stringify E (with_message_content data
              (quoted r @ ''\<newline>\<newline>---\<newline>\<newline>'' @ c @ ''\<newline>\<newline>---\<newline>\<newline>''
                 @ join [nl] (numbered ''> '' 0 cs)))))
    \<and> (\<forall>m text. message_of data = Some (JObj m) \<longrightarrow>
          opt_member (message_of (with_message_content data text)) ''content'' = Some (JStr text))
    \<and> quoted r = join [nl] (map (\<lambda>line. if blank line then ''>'' else ''> '' @ line) (split_nl r))
    \<and> length (numbered mark 0 cs) = length cs
    \<and> (\<forall>i < length cs. numbered mark 0 cs ! i = ''['' @ nat_to_string (i + 1) @ '']'' @ mark @ cs ! i)"
proof -
  have none: "\<not> truthy (opt_member (message_of data) ''reasoning'') \<longrightarrow>
            processNonStreamingResponse_AB E body = Original
          \<and> processNonStreamingResponse_C E body = Original
          \<and> processNonStreamingResponse_D E body = Original"
    unfolding processNonStreamingResponse_AB_def processNonStreamingResponse_C_def
      processNonStreamingResponse_D_def
    using respond_no_reasoning [OF assms] by blast
  have plain: "opt_member (message_of data) ''reasoning'' = Some (JStr r) \<and> r \<noteq> []
        \<and> ToString_val (Number_toString E) (opt_member (message_of data) ''content'') = Inr c
        \<and> \<not> truthy (opt_member (Some data) ''citations'') \<longrightarrow>
        respond (rewrite_body E mark gap body)
          = Rewritten (JSON_stringify E (with_message_content data (quoted r @ gap @ c)))" for mark gap
  proof
    assume h: "opt_member (message_of data) ''reasoning'' = Some (JStr r) \<and> r \<noteq> []
        \<and> ToString_val (Number_toString E) (opt_member (message_of data) ''content'') = Inr c
        \<and> \<not> truthy (opt_member (Some data) ''citations'')"
    then have t: "truthy (opt_member (message_of data) ''reasoning'')" by simp
    show "respond (rewrite_body E mark gap body)
          = Rewritten (JSON_stringify E (with_message_content data (quoted r @ gap @ c)))"
      using h by (simp add: respond_new_content [OF assms t] new_content_plain)
  qed
  have cited: "opt_member (message_of data) ''reasoning'' = Some (JStr r) \<and> r \<noteq> []
        \<and> ToString_val (Number_toString E) (opt_member (message_of data) ''content'') = Inr c
        \<and> opt_member (Some data) ''citations'' = Some (JArr (map JStr cs)) \<longrightarrow>
        respond (rewrite_body E mark gap body)
          = Rewritten (JSON_stringify E (with_message_content data
              (quoted r @ ''\<newline>\<newline>---\<newline>\<newline>'' @ c @ ''\<newline>\<newline>---\<newline>\<newline>''
                 @ join [nl] (numbered mark 0 cs))))" for mark gap
  proof
    assume h: "opt_member (message_of data) ''reasoning'' = Some (JStr r) \<and> r \<noteq> []
        \<and> ToString_val (Number_toString E) (opt_member (message_of data) ''content'') = Inr c
        \<and> opt_member (Some data) ''citations'' = Some (JArr (map JStr cs))"
    then have t: "truthy (opt_member (message_of data) ''reasoning'')" by simp
    have "new_content E mark gap data = Inr (quoted r @ rule @ c @ rule @ join [nl] (numbered mark 0 cs))"
      using h by (intro new_content_cited) simp_all
    then show "respond (rewrite_body E mark gap body)
          = Rewritten (JSON_stringify E (with_message_content data
              (quoted r @ ''\<newline>\<newline>---\<newline>\<newline>'' @ c @ ''\<newline>\<newline>---\<newline>\<newline>''
                 @ join [nl] (numbered mark 0 cs))))"
      by (simp add: respond_new_content [OF assms t] rule_def)
  qed
  have assigned: "\<forall>m text. message_of data = Some (JObj m) \<longrightarrow>
          opt_member (message_of (with_message_content data text)) ''content'' = Some (JStr text)"
    using message_after_assignment by blast
  have q: "quoted r = join [nl] (map (\<lambda>line. if blank line then ''>'' else ''> '' @ line) (split_nl r))"
    by (simp add: quoted_def quote_line_def cong: map_cong)
  have n: "\<forall>i < length cs. numbered mark 0 cs ! i = ''['' @ nat_to_string (i + 1) @ '']'' @ mark @ cs ! i"
    by (simp add: numbered_nth)
  show ?thesis
    unfolding processNonStreamingResponse_AB_def processNonStreamingResponse_C_def
      processNonStreamingResponse_D_def
    using none [unfolded processNonStreamingResponse_AB_def processNonStreamingResponse_C_def
      processNonStreamingResponse_D_def] plain cited assigned q n length_numbered
    by (intro conjI) blast+
qed


theorem batch_content_witness:
  \<open>JSON_parse sample_env ''{"choices":[{"message":{"content":"c","reasoning":"a"}}],"citations":["u","v"]}''
     = Some (JObj [(''choices'', JArr [JObj [(''message'', JObj [(''content'', JStr ''c''), (''reasoning'', JStr ''a'')])]]),
                   (''citations'', JArr (map JStr [''u'', ''v'']))])
   \<and> processNonStreamingResponse_AB sample_env
        ''{"choices":[{"message":{"content":"c","reasoning":"a"}}],"citations":["u","v"]}''
     = Rewritten (JSON_stringify sample_env (with_message_content
         (JObj [(''choices'', JArr [JObj [(''message'', JObj [(''content'', JStr ''c''), (''reasoning'', JStr ''a'')])]]),
                (''citations'', JArr (map JStr [''u'', ''v'']))])
         (quoted ''a'' @ ''\<newline>\<newline>---\<newline>\<newline>'' @ ''c'' @ ''\<newline>\<newline>---\<newline>\<newline>''
            @ join [nl] (numbered '' > '' 0 [''u'', ''v'']))))
   \<and> quoted ''a'' = ''> a''
   \<and> join [nl] (numbered '' > '' 0 [''u'', ''v'']) = ''[1] > u\<newline>[2] > v''\<close>
proof -
  let ?body = \<open>''{"choices":[{"message":{"content":"c","reasoning":"a"}}],"citations":["u","v"]}''\<close>
  let ?data = "JObj [(''choices'', JArr [JObj [(''message'', JObj [(''content'', JStr ''c''), (''reasoning'', JStr ''a'')])]]),
                   (''citations'', JArr (map JStr [''u'', ''v'']))]"
  have h: "JSON_parse sample_env ?body = Some ?data"
    by code_simp
  have p: "opt_member (message_of ?data) ''reasoning'' = Some (JStr ''a'') \<and> ''a'' \<noteq> []
        \<and> ToString_val (Number_toString sample_env) (opt_member (message_of ?data) ''content'') = Inr ''c''
        \<and> opt_member (Some ?data) ''citations'' = Some (JArr (map JStr [''u'', ''v'']))"
    by (simp add: message_of_def choice0_def)
  have q: "quoted ''a'' = ''> a''"
    by code_simp
  have n: "join [nl] (numbered '' > '' 0 [''u'', ''v'']) = ''[1] > u\<newline>[2] > v''"
    by code_simp
  from batch_content [OF h, of "''a''" "''c''" "[''u'', ''v'']"] p
  have "processNonStreamingResponse_AB sample_env ?body
     = Rewritten (JSON_stringify sample_env (with_message_content ?data
         (quoted ''a'' @ ''\<newline>\<newline>---\<newline>\<newline>'' @ ''c'' @ ''\<newline>\<newline>---\<newline>\<newline>''
            @ join [nl] (numbered '' > '' 0 [''u'', ''v'']))))"
    by blast
  with h q n show ?thesis by blast
qed

text \<open>
  The second version of the other file puts one rule, not two, between the reasoning and the
  content of a document without citations: its content is neither the reasoning, twice the
  separator of the citation branch and the content, nor what the other versions write.
\<close>

theorem batch_one_rule_counterexample:
  \<open>processNonStreamingResponse_D sample_env ''{"choices":[{"message":{"content":"c","reasoning":"a"}}]}''
     = Rewritten (sample_stringify
         (JObj [(''choices'', JArr [JObj [(''message'',
            JObj [(''content'', JStr ''> a\<newline>\<newline>---\<newline>\<newline>c''), (''reasoning'', JStr ''a'')])]])]))
   \<and> ''> a\<newline>\<newline>---\<newline>\<newline>c'' \<noteq> ''> a'' @ rule @ rule @ ''c''
   \<and> ''> a\<newline>\<newline>---\<newline>\<newline>c'' \<noteq> ''> a\<newline>\<newline>---\<newline>\<newline>---\<newline>\<newline>c''
   \<and> processNonStreamingResponse_AB sample_env ''{"choices":[{"message":{"content":"c","reasoning":"a"}}]}''
     = Rewritten (sample_stringify
         (JObj [(''choices'', JArr [JObj [(''message'',
            JObj [(''content'', JStr ''> a\<newline>\<newline>---\<newline>\<newline>---\<newline>\<newline>c''), (''reasoning'', JStr ''a'')])]])]))\<close>
  by code_simp

text \<open>
  Claim C9. The non-streaming transformers let no exception out: their result is a response.
  A body that does not parse, a reasoning that is truthy and not a string, citations that
  are truthy and not an array, and any other failure while the new content is built, all
  give back the response that came in.
\<close>

theorem batch_failures_fall_back:
  "(JSON_parse E body = None \<longrightarrow>
        processNonStreamingResponse_AB E body = Original
      \<and> processNonStreamingResponse_C E body = Original
      \<and> processNonStreamingResponse_D E body = Original)
   \<and> (JSON_parse E body = Some data \<and> truthy (opt_member (message_of data) ''reasoning'')
       \<and> (\<exists>e. new_content E '' > '' ''\<newline>\<newline>---\<newline>\<newline>---\<newline>\<newline>'' data = Inl e) \<longrightarrow>
        processNonStreamingResponse_AB E body = Original)
   \<and> (JSON_parse E body = Some data \<and> truthy (opt_member (message_of data) ''reasoning'')
       \<and> (\<exists>e. new_content E ''> '' ''\<newline>\<newline>---\<newline>\<newline>---\<newline>\<newline>'' data = Inl e) \<longrightarrow>
        processNonStreamingResponse_C E body = Original)
   \<and> (JSON_parse E body = Some data \<and> truthy (opt_member (message_of data) ''reasoning'')
       \<and> (\<exists>e. new_content E ''> '' ''\<newline>\<newline>---\<newline>\<newline>'' data = Inl e) \<longrightarrow>
        processNonStreamingResponse_D E body = Original)
   \<and> (truthy (opt_member (message_of data) ''reasoning'')
       \<and> (\<forall>r. opt_member (message_of data) ''reasoning'' \<noteq> Some (JStr r)) \<longrightarrow>
        new_content E mark gap data = Inl TypeError)
   \<and> (truthy (opt_member (Some data) ''citations'')
       \<and> (\<forall>cs. opt_member (Some data) ''citations'' \<noteq> Some (JArr cs)) \<longrightarrow>
        (\<exists>e. new_content E mark gap data = Inl e))"
proof -
  have parse: "JSON_parse E body = None \<longrightarrow>
        processNonStreamingResponse_AB E body = Original
      \<and> processNonStreamingResponse_C E body = Original
      \<and> processNonStreamingResponse_D E body = Original"
    by (simp add: processNonStreamingResponse_AB_def processNonStreamingResponse_C_def
        processNonStreamingResponse_D_def rewrite_body_def)
  have fail: "JSON_parse E body = Some data \<and> truthy (opt_member (message_of data) ''reasoning'')
       \<and> (\<exists>e. new_content E mark gap data = Inl e) \<longrightarrow> respond (rewrite_body E mark gap body) = Original"
    for mark gap
    by (auto simp: rewrite_body_def)
  have not_string: "truthy (opt_member (message_of data) ''reasoning'')
       \<and> (\<forall>r. opt_member (message_of data) ''reasoning'' \<noteq> Some (JStr r)) \<longrightarrow>
        new_content E mark gap data = Inl TypeError"
  proof (cases "opt_member (message_of data) ''reasoning''")
    case None
    then show ?thesis by simp
  next
    case (Some v)
    then show ?thesis by (cases v) (simp_all add: new_content_def)
  qed
  have not_array: "truthy (opt_member (Some data) ''citations'')
       \<and> (\<forall>cs. opt_member (Some data) ''citations'' \<noteq> Some (JArr cs)) \<longrightarrow>
        (\<exists>e. new_content E mark gap data = Inl e)"
  proof (cases "opt_member (Some data) ''citations''")
    case None
    then show ?thesis by simp
  next
    case (Some v)
    then show ?thesis by (cases v) (auto simp: new_content_def split: sum.splits)
  qed
  show ?thesis
    unfolding processNonStreamingResponse_AB_def processNonStreamingResponse_C_def
      processNonStreamingResponse_D_def
    using parse [unfolded processNonStreamingResponse_AB_def processNonStreamingResponse_C_def
      processNonStreamingResponse_D_def] fail not_string not_array
    by (intro conjI) blast+
qed

theorem batch_failures_fall_back_witness:
  \<open>JSON_parse sample_env ''<html>'' = None
   \<and> processNonStreamingResponse_AB sample_env ''<html>'' = Original
   \<and> JSON_parse sample_env ''{"choices":[{"message":{"reasoning":5}}]}''
       = Some (JObj [(''choices'', JArr [JObj [(''message'', JObj [(''reasoning'', JNum 5)])]])])
   \<and> processNonStreamingResponse_D sample_env ''{"choices":[{"message":{"reasoning":5}}]}'' = Original\<close>
proof -
  let ?data = "JObj [(''choices'', JArr [JObj [(''message'', JObj [(''reasoning'', JNum 5)])]])]"
  have h1: "JSON_parse sample_env ''<html>'' = None"
    by code_simp
  have h2: \<open>JSON_parse sample_env ''{"choices":[{"message":{"reasoning":5}}]}'' = Some ?data\<close>
    by code_simp
  have t: "truthy (opt_member (message_of ?data) ''reasoning'')
      \<and> (\<forall>r. opt_member (message_of ?data) ''reasoning'' \<noteq> Some (JStr r))"
    by (simp add: message_of_def choice0_def)
  from batch_failures_fall_back [of sample_env "''<html>''"] h1
  have a: "processNonStreamingResponse_AB sample_env ''<html>'' = Original"
    by blast
  from batch_failures_fall_back [of sample_env _ ?data "''> ''" "''\<newline>\<newline>---\<newline>\<newline>''"] h2 t
  have b: \<open>processNonStreamingResponse_D sample_env ''{"choices":[{"message":{"reasoning":5}}]}'' = Original\<close>
    by blast
  from h1 h2 a b show ?thesis by blast
qed

section \<open>The start of the reasoning phase\<close>

lemma event_ofD:
  "event_of E line = Some data \<Longrightarrow>
     prefix ''data: '' line \<and> \<not> sublist ''[DONE]'' line \<and> JSON_parse E (drop 6 line) = Some data"
  by (auto simp: event_of_def split: if_splits)

lemma member_Some_object: "opt_member v k = Some x \<Longrightarrow> \<exists>kvs. v = Some (JObj kvs)"
  by (cases "(v, k)" rule: opt_member.cases) (auto elim: member.elims)

lemma delta_needs_object: "delta_of data = Some d \<Longrightarrow> get (Some data) k = Inr (opt_member (Some data) k)"
  by (cases data) (auto simp: delta_of_def choice0_def)

lemma get_not_null: "data \<noteq> JNull \<Longrightarrow> get (Some data) k = Inr (opt_member (Some data) k)"
  by (cases data) simp_all

lemma replace_nl_append: "replace_nl (u @ v) = replace_nl u @ replace_nl v"
  by (simp add: replace_nl_def)

lemma replace_nl_plain: "nl \<notin> set u \<Longrightarrow> replace_nl u = u"
  by (induction u) (auto simp: replace_nl_def)

text \<open>
  Claim C2, as the code has it. Take a parsed data line whose delta has a non-empty string as
  reasoning, arriving before reasoning has started. The second version of reason.js handles
  it as reasoning when the content is null: it reads the clock, enqueues the header and then
  the fragment with \<^verbatim>\<open>> \<close> put after each line break, and the session is active. When the
  content key is absent it passes the line on and the session stays as it was. The first
  version of the other file handles the line as reasoning whenever the content is falsy:
  null, absent or empty.
\<close>

theorem reasoning_start:
  assumes "event_of E line = Some data"
    and "opt_member (delta_of data) ''reasoning'' = Some (JStr r)" and "r \<noteq> []"
  shows "(opt_member (delta_of data) ''content'' = Some JNull \<and> phase stB = NotStarted \<longrightarrow>
           process_line_B E stB line =
             ([Header (with_delta data thinking_text), Reasoning (with_delta data (replace_nl r))],
              Inr (start_thinking E (capture (opt_member (Some data) ''citations'') stB)))
         \<and> phase (start_thinking E (capture (opt_member (Some data) ''citations'') stB)) = Active
         \<and> startThinkingTime (start_thinking E (capture (opt_member (Some data) ''citations'') stB))
             = Some (performance_now E (ticks stB)))
    \<and> (opt_member (delta_of data) ''content'' = None \<and> phase stB = NotStarted \<longrightarrow>
           process_line_B E stB line =
             ([Forwarded line], Inr (capture (opt_member (Some data) ''citations'') stB))
         \<and> phase (capture (opt_member (Some data) ''citations'') stB) = NotStarted)
    \<and> (\<not> truthy (opt_member (delta_of data) ''content'') \<and> phase stC = NotStarted \<longrightarrow>
           process_line_C E stC line =
             ([Header (only_delta thinking_text), Reasoning (only_delta (replace_nl r))],
              Inr (start_thinking E (capture (opt_member (Some data) ''citations'') stC)))
         \<and> phase (start_thinking E (capture (opt_member (Some data) ''citations'') stC)) = Active
         \<and> startThinkingTime (start_thinking E (capture (opt_member (Some data) ''citations'') stC))
             = Some (performance_now E (ticks stC)))
    \<and> replace_nl (u @ [nl] @ v) = replace_nl u @ [nl] @ ''> '' @ replace_nl v
    \<and> (nl \<notin> set u \<longrightarrow> replace_nl u = u)"
proof -
  note line = event_ofD [OF assms(1)]
  obtain d where d: "delta_of data = Some (JObj d)"
    using member_Some_object [OF assms(2)] by blast
  have g: "get (Some data) ''citations'' = Inr (opt_member (Some data) ''citations'')"
    using d by (rule delta_needs_object)
  have t: "truthy (delta_of data)" "truthy (opt_member (delta_of data) ''reasoning'')"
    using d assms(2,3) by simp_all
  have ph: "phase st = NotStarted \<longleftrightarrow> \<not> reasoningStarted st \<and> \<not> reasoningEnded st" for st :: "'x state_B_scheme"
    by (simp add: phase_def)
  have B1: "opt_member (delta_of data) ''content'' = Some JNull \<and> phase stB = NotStarted \<longrightarrow>
           process_line_B E stB line =
             ([Header (with_delta data thinking_text), Reasoning (with_delta data (replace_nl r))],
              Inr (start_thinking E (capture (opt_member (Some data) ''citations'') stB)))
         \<and> phase (start_thinking E (capture (opt_member (Some data) ''citations'') stB)) = Active
         \<and> startThinkingTime (start_thinking E (capture (opt_member (Some data) ''citations'') stB))
             = Some (performance_now E (ticks stB))"
    using line g t assms(2)
    by (auto simp: process_line_B_def try_B_def catch_forward_def Let_def phase_def
        start_thinking_def capture_def)
  have B2: "opt_member (delta_of data) ''content'' = None \<and> phase stB = NotStarted \<longrightarrow>
           process_line_B E stB line =
             ([Forwarded line], Inr (capture (opt_member (Some data) ''citations'') stB))
         \<and> phase (capture (opt_member (Some data) ''citations'') stB) = NotStarted"
    using line g t assms(2)
    by (auto simp: process_line_B_def try_B_def catch_forward_def Let_def phase_def capture_def
        split: if_splits)
  have C1: "\<not> truthy (opt_member (delta_of data) ''content'') \<and> phase stC = NotStarted \<longrightarrow>
           process_line_C E stC line =
             ([Header (only_delta thinking_text), Reasoning (only_delta (replace_nl r))],
              Inr (start_thinking E (capture (opt_member (Some data) ''citations'') stC)))
         \<and> phase (start_thinking E (capture (opt_member (Some data) ''citations'') stC)) = Active
         \<and> startThinkingTime (start_thinking E (capture (opt_member (Some data) ''citations'') stC))
             = Some (performance_now E (ticks stC))"
    using line g t assms(2)
    by (auto simp: process_line_C_def try_C_def catch_forward_def Let_def phase_def
        start_thinking_def capture_def)
  have R1: "replace_nl (u @ [nl] @ v) = replace_nl u @ [nl] @ ''> '' @ replace_nl v"
    by (simp add: replace_nl_def)
  have R2: "nl \<notin> set u \<longrightarrow> replace_nl u = u"
    by (simp add: replace_nl_plain)
  show ?thesis
    by (intro conjI B1 B2 C1 R1 R2)
qed


theorem reasoning_start_witness:
  \<open>event_of sample_env ''data: {"choices":[{"delta":{"reasoning":"x","content":null}}]}''
     = Some (JObj [(''choices'', JArr [JObj [(''delta'', JObj [(''reasoning'', JStr ''x''), (''content'', JNull)])]])])
   \<and> phase init_B = NotStarted \<and> phase init_C = NotStarted
   \<and> process_line_B sample_env init_B ''data: {"choices":[{"delta":{"reasoning":"x","content":null}}]}''
     = ([Header (with_delta (JObj [(''choices'', JArr [JObj [(''delta'', JObj [(''reasoning'', JStr ''x''), (''content'', JNull)])]])]) thinking_text),
         Reasoning (with_delta (JObj [(''choices'', JArr [JObj [(''delta'', JObj [(''reasoning'', JStr ''x''), (''content'', JNull)])]])]) (replace_nl ''x''))],
        Inr (start_thinking sample_env (capture None init_B)))
   \<and> process_line_C sample_env init_C ''data: {"choices":[{"delta":{"reasoning":"x","content":null}}]}''
     = ([Header (only_delta thinking_text), Reasoning (only_delta (replace_nl ''x''))],
        Inr (start_thinking sample_env (capture None init_C)))\<close>
proof -
  let ?line = \<open>''data: {"choices":[{"delta":{"reasoning":"x","content":null}}]}''\<close>
  let ?data = "JObj [(''choices'', JArr [JObj [(''delta'', JObj [(''reasoning'', JStr ''x''), (''content'', JNull)])]])]"
  have h: "event_of sample_env ?line = Some ?data"
    by code_simp
  have d: "opt_member (delta_of ?data) ''reasoning'' = Some (JStr ''x'')"
    "opt_member (delta_of ?data) ''content'' = Some JNull" "opt_member (Some ?data) ''citations'' = None"
    by (simp_all add: delta_of_def choice0_def)
  have p: "phase init_B = NotStarted" "phase init_C = NotStarted"
    by (simp_all add: phase_def init_B_def init_C_def)
  from reasoning_start [OF h d(1), of init_B init_C] d p h show ?thesis
    by simp
qed

text \<open>
  The second version of reason.js on a delta that has reasoning and no content key: the line
  is passed on, no header is built and the session has not started.
\<close>

theorem reasoning_without_content_key_counterexample:
  \<open>event_of sample_env ''data: {"choices":[{"delta":{"reasoning":"x"}}]}''
     = Some (JObj [(''choices'', JArr [JObj [(''delta'', JObj [(''reasoning'', JStr ''x'')])]])])
   \<and> phase init_B = NotStarted
   \<and> process_line_B sample_env init_B ''data: {"choices":[{"delta":{"reasoning":"x"}}]}''
     = ([Forwarded ''data: {"choices":[{"delta":{"reasoning":"x"}}]}''], Inr init_B)\<close>
  by code_simp

section \<open>Citations in the events that are passed on\<close>

lemma map_of_delete_key: "map_of (delete_key k kvs) k = None"
  by (induction kvs) (auto simp: delete_key_def)

lemma truthy_member_object: "truthy (opt_member (Some data) k) \<Longrightarrow> \<exists>kvs. data = JObj kvs"
  by (cases data) auto

lemma get_object: "get (Some (JObj kvs)) k = Inr (opt_member (Some (JObj kvs)) k)"
  by simp

lemma cleanData_no_citations:
  "truthy (opt_member (Some data) ''citations'') \<Longrightarrow> member (cleanData data) ''citations'' = None"
  by (cases data) (auto simp: cleanData_def map_of_delete_key)

text \<open>
  Claim C3, as the code has it. Take a parsed data line whose citations are truthy. The three
  versions that do not strip anything pass the line on as it came, citations included:
  the first version of reason.js always, its second version and the first version of the other
  file when the line is not a reasoning fragment and the reasoning phase is not active.
  Under the same two conditions the second version of the other file does not pass the line
  on: it drops it when it is the first line with citations and holds nothing else, and
  otherwise serialises the event again without its \<^verbatim>\<open>citations\<close> key.
\<close>

theorem citations_in_forwarded_events:
  assumes "event_of E line = Some data" and "truthy (opt_member (Some data) ''citations'')"
  shows "process_line_A E stA line = ([Forwarded line], Inr (capture (opt_member (Some data) ''citations'') stA))
    \<and> (\<not> truthy (opt_member (delta_of data) ''reasoning'') \<and> phase stB \<noteq> Active \<longrightarrow>
          process_line_B E stB line = ([Forwarded line], Inr (capture (opt_member (Some data) ''citations'') stB)))
    \<and> (\<not> truthy (opt_member (delta_of data) ''reasoning'') \<and> phase stC \<noteq> Active \<longrightarrow>
          process_line_C E stC line = ([Forwarded line], Inr (capture (opt_member (Some data) ''citations'') stC)))
    \<and> (\<not> truthy (opt_member (delta_of data) ''reasoning'') \<and> phase stD \<noteq> Active \<longrightarrow>
          (\<exists>st'. process_line_D E stD line =
             (if \<not> citationsReceived stD \<and> length (spread data) = 1 then [] else [Cleaned (cleanData data)],
              Inr st'))
          \<and> member (cleanData data) ''citations'' = None)"
proof -
  note line = event_ofD [OF assms(1)]
  obtain kvs where data: "data = JObj kvs"
    using truthy_member_object [OF assms(2)] by blast
  have g: "get (Some data) ''citations'' = Inr (opt_member (Some data) ''citations'')"
    unfolding data by simp
  have ph: "phase st \<noteq> Active \<longleftrightarrow> reasoningEnded st \<or> \<not> reasoningStarted st" for st :: "'x state_B_scheme"
    by (simp add: phase_def)
  have A: "process_line_A E stA line = ([Forwarded line], Inr (capture (opt_member (Some data) ''citations'') stA))"
    using line g by (simp add: process_line_A_def try_A_def catch_forward_def)
  have B: "\<not> truthy (opt_member (delta_of data) ''reasoning'') \<and> phase stB \<noteq> Active \<longrightarrow>
          process_line_B E stB line = ([Forwarded line], Inr (capture (opt_member (Some data) ''citations'') stB))"
    using line g
    by (auto simp: process_line_B_def try_B_def catch_forward_def Let_def ph capture_def)
  have C: "\<not> truthy (opt_member (delta_of data) ''reasoning'') \<and> phase stC \<noteq> Active \<longrightarrow>
          process_line_C E stC line = ([Forwarded line], Inr (capture (opt_member (Some data) ''citations'') stC))"
    using line g
    by (auto simp: process_line_C_def try_C_def catch_forward_def Let_def ph capture_def)
  have D: "\<not> truthy (opt_member (delta_of data) ''reasoning'') \<and> phase stD \<noteq> Active \<longrightarrow>
          (\<exists>st'. process_line_D E stD line =
             (if \<not> citationsReceived stD \<and> length (spread data) = 1 then [] else [Cleaned (cleanData data)],
              Inr st'))
          \<and> member (cleanData data) ''citations'' = None"
    using line g assms(2) cleanData_no_citations [OF assms(2)]
    by (auto simp: process_line_D_def try_D_def catch_forward_def Let_def ph)
  show ?thesis
    by (intro conjI A B C D)
qed

theorem citations_in_forwarded_events_witness:
  \<open>event_of sample_env ''data: {"id":7,"citations":["u"]}''
     = Some (JObj [(''id'', JNum 7), (''citations'', JArr [JStr ''u''])])
   \<and> truthy (opt_member (Some (JObj [(''id'', JNum 7), (''citations'', JArr [JStr ''u''])])) ''citations'')
   \<and> phase init_D \<noteq> Active
   \<and> (\<exists>st'. process_line_D sample_env init_D ''data: {"id":7,"citations":["u"]}''
         = ([Cleaned (cleanData (JObj [(''id'', JNum 7), (''citations'', JArr [JStr ''u''])]))], Inr st'))
   \<and> cleanData (JObj [(''id'', JNum 7), (''citations'', JArr [JStr ''u''])]) = JObj [(''id'', JNum 7)]\<close>
proof -
  let ?line = \<open>''data: {"id":7,"citations":["u"]}''\<close>
  let ?data = "JObj [(''id'', JNum 7), (''citations'', JArr [JStr ''u''])]"
  have h: "event_of sample_env ?line = Some ?data"
    by code_simp
  have t: "truthy (opt_member (Some ?data) ''citations'')"
    by simp
  have n: "\<not> truthy (opt_member (delta_of ?data) ''reasoning'')" "phase init_D \<noteq> Active"
    "\<not> (\<not> citationsReceived init_D \<and> length (spread ?data) = 1)"
    by (simp_all add: delta_of_def choice0_def phase_def init_D_def)
  have c: "cleanData ?data = JObj [(''id'', JNum 7)]"
    by (simp add: cleanData_def delete_key_def)
  from citations_in_forwarded_events [OF h t, of init_A init_B init_C init_D] n
  have "\<exists>st'. process_line_D sample_env init_D ?line = ([Cleaned (cleanData ?data)], Inr st')"
    by simp
  with h t n c show ?thesis by blast
qed

text \<open>
  The first version of reason.js on an event with citations: the line is passed on as it came,
  and decodes to an event that still has them.
\<close>

theorem citations_forwarded_counterexample:
  \<open>process_line_A sample_env init_A ''data: {"choices":[{"delta":{"content":"hi"}}],"citations":["u"]}''
     = ([Forwarded ''data: {"choices":[{"delta":{"content":"hi"}}],"citations":["u"]}''],
        Inr \<lparr>citations = Some (JArr [JStr ''u''])\<rparr>)
   \<and> cit_of sample_env ''data: {"choices":[{"delta":{"content":"hi"}}],"citations":["u"]}''
     = Some (JArr [JStr ''u''])\<close>
  by code_simp

section \<open>Streams without reasoning\<close>

lemma for_lines_all_forwarded:
  "(\<And>l. l \<in> set ls \<Longrightarrow> f st l = ([Forwarded l], Inr st)) \<Longrightarrow>
     for_lines f st ls = (map Forwarded ls, Inr st)"
  by (induction ls) auto

lemma wire_text_forwarded: "wire_text E (map Forwarded ls) = concat (map (\<lambda>l. l @ [nl]) ls)"
  by (simp add: wire_text_def comp_def)

lemma plain_line_A:
  assumes "\<not> truthy (cit_of E l)" and "\<not> truthy (citations st)"
  shows "process_line_A E st l = ([Forwarded l], Inr st)"
proof (cases "event_of E l")
  case None
  then show ?thesis
    using assms(2)
    by (auto simp: process_line_A_def event_of_def sentinel_AB_def try_A_def catch_forward_def
        split: if_splits)
next
  case (Some data)
  note line = event_ofD [OF Some]
  show ?thesis
    using line assms Some
    by (cases data) (auto simp: process_line_A_def try_A_def catch_forward_def cit_of_def capture_def)
qed

lemma plain_line_B:
  assumes "\<not> carries_reasoning E l" and "\<not> truthy (cit_of E l)"
    and "\<not> truthy (citations st)" and "\<not> reasoningStarted st"
  shows "process_line_B E st l = ([Forwarded l], Inr st)"
proof (cases "event_of E l")
  case None
  then show ?thesis
    using assms(3)
    by (auto simp: process_line_B_def event_of_def sentinel_AB_def try_B_def catch_forward_def
        split: if_splits)
next
  case (Some data)
  note line = event_ofD [OF Some]
  show ?thesis
    using line assms Some
    by (cases data)
      (auto simp: process_line_B_def try_B_def catch_forward_def cit_of_def capture_def
        carries_reasoning_def Let_def)
qed

lemma plain_line_C:
  assumes "\<not> carries_reasoning E l" and "\<not> truthy (cit_of E l)"
    and "\<not> truthy (citations st)" and "\<not> reasoningStarted st"
  shows "process_line_C E st l = ([Forwarded l], Inr st)"
proof (cases "event_of E l")
  case None
  then show ?thesis
    by (auto simp: process_line_C_def event_of_def try_C_def catch_forward_def
        split: if_splits)
next
  case (Some data)
  note line = event_ofD [OF Some]
  show ?thesis
    using line assms Some
    by (cases data)
      (auto simp: process_line_C_def try_C_def catch_forward_def cit_of_def capture_def
        carries_reasoning_def Let_def)
qed

lemma for_lines_all_mapped:
  "(\<And>l. l \<in> set ls \<Longrightarrow> f st l = ([g l], Inr st)) \<Longrightarrow> for_lines f st ls = (map g ls, Inr st)"
  by (induction ls) auto

lemma plain_line_D:
  assumes "\<not> carries_reasoning E l" and "\<not> truthy (cit_of E l)" and "\<not> reasoningStarted st"
    and "\<forall>data. event_of E l = Some data \<longrightarrow> (\<exists>kvs. data = JObj kvs)"
  shows "process_line_D E st l = ([reserialised E l], Inr st)"
proof (cases "event_of E l")
  case None
  then show ?thesis
    by (auto simp: process_line_D_def event_of_def try_D_def catch_forward_def reserialised_def
        split: if_splits)
next
  case (Some data)
  note line = event_ofD [OF Some]
  obtain kvs where data: "data = JObj kvs"
    using assms(4) Some by blast
  have clean: "cleanData data = data"
    using assms(2) Some by (simp add: data cleanData_def cit_of_def)
  have out: "process_line_D E st l = ([Cleaned (cleanData data)], Inr st)"
    using line assms(1,2,3) Some data
    by (auto simp: process_line_D_def try_D_def catch_forward_def cit_of_def
        carries_reasoning_def Let_def)
  show ?thesis
    unfolding out clean by (simp add: reserialised_def Some)
qed

lemma stream_D_plain:
  assumes "\<forall>l \<in> set (complete_lines (concat chunks)). \<not> carries_reasoning E l \<and> \<not> truthy (cit_of E l)"
    and "\<forall>l \<in> set (complete_lines (concat chunks)). \<forall>data. event_of E l = Some data \<longrightarrow> (\<exists>kvs. data = JObj kvs)"
  shows "processStreamingResponse_D E chunks = (map (reserialised E) (complete_lines (concat chunks)), Closed)"
proof -
  let ?ls = "complete_lines (concat chunks)"
  have D: "for_lines (process_line_D E) init_D ?ls = (map (reserialised E) ?ls, Inr init_D)"
    using assms by (intro for_lines_all_mapped plain_line_D) (simp_all add: init_D_def)
  show ?thesis
    unfolding processStreamingResponse_D_def read_loop_text D
    by (simp add: finish_D_def init_D_def)
qed

text \<open>
  Claim C7, as the code has it. The response is its decoded text: the chunks are what the
  decoder makes of the bytes read, and it drops a leading byte order mark and replaces invalid
  UTF-8, so what is said of the text holds of the bytes only when decoding changed nothing.
  When no complete line of a response has a delta with a reasoning field or truthy citations,
  both versions of reason.js and the first version of the other file pass every complete
  line on as it came and add nothing, so what they send is the decoded text up to its last
  line break, and all of it when it ends in one. The second version of the other file, when
  moreover every event that is parsed is an object, passes on the lines it does not parse
  and sends every event it parses serialised again and followed by two line breaks.
\<close>

theorem passthrough_without_reasoning:
  assumes "\<forall>l \<in> set (complete_lines (concat chunks)). \<not> carries_reasoning E l \<and> \<not> truthy (cit_of E l)"
  shows "processStreamingResponse_A E chunks = (map Forwarded (complete_lines (concat chunks)), Closed)
    \<and> processStreamingResponse_B E chunks = (map Forwarded (complete_lines (concat chunks)), Closed)
    \<and> processStreamingResponse_C E chunks = (map Forwarded (complete_lines (concat chunks)), Closed)
    \<and> ((\<forall>l \<in> set (complete_lines (concat chunks)).
            \<forall>data. event_of E l = Some data \<longrightarrow> (\<exists>kvs. data = JObj kvs)) \<longrightarrow>
          processStreamingResponse_D E chunks = (map (reserialised E) (complete_lines (concat chunks)), Closed))
    \<and> (\<forall>l data. event_of E l = Some data \<longrightarrow>
          wire E (reserialised E l) = ''data: '' @ JSON_stringify E data @ [nl, nl])
    \<and> (\<forall>l. event_of E l = None \<longrightarrow> wire E (reserialised E l) = l @ [nl])
    \<and> wire_text E (map Forwarded (complete_lines (concat chunks))) @ partial_line (concat chunks)
        = concat chunks
    \<and> (partial_line (concat chunks) = [] \<longrightarrow>
          wire_text E (fst (processStreamingResponse_A E chunks)) = concat chunks
        \<and> wire_text E (fst (processStreamingResponse_B E chunks)) = concat chunks
        \<and> wire_text E (fst (processStreamingResponse_C E chunks)) = concat chunks)"
proof -
  let ?ls = "complete_lines (concat chunks)"
  have A: "for_lines (process_line_A E) init_A ?ls = (map Forwarded ?ls, Inr init_A)"
    using assms by (intro for_lines_all_forwarded plain_line_A) (simp_all add: init_A_def)
  have B: "for_lines (process_line_B E) init_B ?ls = (map Forwarded ?ls, Inr init_B)"
    using assms by (intro for_lines_all_forwarded plain_line_B) (simp_all add: init_B_def)
  have C: "for_lines (process_line_C E) init_C ?ls = (map Forwarded ?ls, Inr init_C)"
    using assms by (intro for_lines_all_forwarded plain_line_C) (simp_all add: init_C_def)
  have rA: "processStreamingResponse_A E chunks = (map Forwarded ?ls, Closed)"
    unfolding processStreamingResponse_A_def read_loop_text A
    by (simp add: finish_AB_def init_A_def)
  have rB: "processStreamingResponse_B E chunks = (map Forwarded ?ls, Closed)"
    unfolding processStreamingResponse_B_def read_loop_text B
    by (simp add: finish_AB_def init_B_def)
  have rC: "processStreamingResponse_C E chunks = (map Forwarded ?ls, Closed)"
    unfolding processStreamingResponse_C_def read_loop_text C
    by (simp add: finish_C_def init_C_def)
  have w: "wire_text E (map Forwarded ?ls) @ partial_line (concat chunks) = concat chunks"
    unfolding wire_text_forwarded complete_lines_def partial_line_def split_nl_def
    using split_from_rebuild [of "[]" "concat chunks"] by simp
  have all: "partial_line (concat chunks) = [] \<longrightarrow>
          wire_text E (fst (processStreamingResponse_A E chunks)) = concat chunks
        \<and> wire_text E (fst (processStreamingResponse_B E chunks)) = concat chunks
        \<and> wire_text E (fst (processStreamingResponse_C E chunks)) = concat chunks"
    using w by (auto simp: rA rB rC)
  have rD: "(\<forall>l \<in> set ?ls. \<forall>data. event_of E l = Some data \<longrightarrow> (\<exists>kvs. data = JObj kvs)) \<longrightarrow>
          processStreamingResponse_D E chunks = (map (reserialised E) ?ls, Closed)"
    using stream_D_plain [OF assms] by blast
  have wD: "\<forall>l data. event_of E l = Some data \<longrightarrow>
          wire E (reserialised E l) = ''data: '' @ JSON_stringify E data @ [nl, nl]"
    by (simp add: reserialised_def)
  have wN: "\<forall>l. event_of E l = None \<longrightarrow> wire E (reserialised E l) = l @ [nl]"
    by (simp add: reserialised_def)
  show ?thesis
    by (intro conjI rA rB rC rD wD wN w all)
qed

theorem passthrough_without_reasoning_witness:
  \<open>complete_lines (concat [''data: {"choices":[{"delta":{"content":"hi"}}]}\<newline>\<newline>data: [DO'', ''NE]\<newline>''])
     = [''data: {"choices":[{"delta":{"content":"hi"}}]}'', [], ''data: [DONE]'']
   \<and> processStreamingResponse_B sample_env
        [''data: {"choices":[{"delta":{"content":"hi"}}]}\<newline>\<newline>data: [DO'', ''NE]\<newline>'']
     = (map Forwarded [''data: {"choices":[{"delta":{"content":"hi"}}]}'', [], ''data: [DONE]''], Closed)
   \<and> processStreamingResponse_D sample_env
        [''data: {"choices":[{"delta":{"content":"hi"}}]}\<newline>\<newline>data: [DO'', ''NE]\<newline>'']
     = ([Cleaned (JObj [(''choices'', JArr [JObj [(''delta'', JObj [(''content'', JStr ''hi'')])]])]),
         Forwarded [], Forwarded ''data: [DONE]''], Closed)\<close>
proof -
  let ?chunks = \<open>[''data: {"choices":[{"delta":{"content":"hi"}}]}\<newline>\<newline>data: [DO'', ''NE]\<newline>'']\<close>
  have ls: \<open>complete_lines (concat ?chunks)
     = [''data: {"choices":[{"delta":{"content":"hi"}}]}'', [], ''data: [DONE]'']\<close>
    by code_simp
  have h: "\<forall>l \<in> set (complete_lines (concat ?chunks)). \<not> carries_reasoning sample_env l \<and> \<not> truthy (cit_of sample_env l)"
    by code_simp
  have e1: \<open>event_of sample_env ''data: {"choices":[{"delta":{"content":"hi"}}]}''
     = Some (JObj [(''choices'', JArr [JObj [(''delta'', JObj [(''content'', JStr ''hi'')])]])])\<close>
    by code_simp
  have e2: "event_of sample_env [] = None"
    by code_simp
  have e3: "event_of sample_env ''data: [DONE]'' = None"
    by code_simp
  from passthrough_without_reasoning [OF h] ls e1 e2 e3 show ?thesis
    by (simp add: reserialised_def)
qed

text \<open>
  The second version of the other file on a response of one content event with neither
  reasoning nor citations: the event is serialised again and sent with two line breaks, so
  the output is one byte longer than the input. And the second version of reason.js on a
  response of one event with citations and no reasoning: a footer follows the line.
\<close>

theorem reserialised_counterexample:
  \<open>\<not> carries_reasoning sample_env ''data: {"choices":[{"delta":{"content":"hi"}}]}''
   \<and> wire_text sample_env (fst (processStreamingResponse_D sample_env
        [''data: {"choices":[{"delta":{"content":"hi"}}]}\<newline>'']))
     = ''data: {"choices":[{"delta":{"content":"hi"}}]}\<newline>\<newline>''
   \<and> ''data: {"choices":[{"delta":{"content":"hi"}}]}\<newline>\<newline>''
     \<noteq> ''data: {"choices":[{"delta":{"content":"hi"}}]}\<newline>''
   \<and> \<not> carries_reasoning sample_env ''data: {"citations":["u"]}''
   \<and> processStreamingResponse_B sample_env [''data: {"citations":["u"]}\<newline>'']
     = ([Forwarded ''data: {"citations":["u"]}'', Footer (JObj [(''citations'', JStr ''[1] > u'')])], Closed)\<close>
  by code_simp

section \<open>The citation footer\<close>

lemma footers_append [simp]: "footers (a @ b) = footers a + footers b"
  by (simp add: footers_def)

lemma footers_simps [simp]:
  "footers [] = 0" "footers (Forwarded l # out) = footers out" "footers (Header j # out) = footers out"
  "footers (Reasoning j # out) = footers out" "footers (Separator j # out) = footers out"
  "footers (Cleaned j # out) = footers out" "footers (Footer j # out) = Suc (footers out)"
  by (simp_all add: footers_def)

lemma citationsMessage_strings:
  "citationsMessage E (Some (JArr (map JStr cs))) = Inr (footer_AB cs)"
  by (simp add: citationsMessage_def footer_AB_def citation_entries_strings)

lemma not_sentinel_event: "event_of E l = Some data \<Longrightarrow> \<not> is_sentinel l"
  by (auto simp: event_of_def is_sentinel_def split: if_splits)

lemma cit_of_Some_event: "cit_of E l = Some c \<Longrightarrow> \<exists>data. event_of E l = Some data \<and> opt_member (Some data) ''citations'' = Some c"
  by (auto simp: cit_of_def split: option.splits)

lemma capturing_line_A:
  assumes "cit_of E l = Some (JArr (map JStr cs))" and "\<not> truthy (citations st)"
  shows "process_line_A E st l = ([Forwarded l], Inr (st\<lparr>citations := Some (JArr (map JStr cs))\<rparr>))"
proof -
  obtain data where data: "event_of E l = Some data"
    "opt_member (Some data) ''citations'' = Some (JArr (map JStr cs))"
    using cit_of_Some_event [OF assms(1)] by blast
  note line = event_ofD [OF data(1)]
  show ?thesis
    using line data(2) assms(2)
    by (cases data) (auto simp: process_line_A_def try_A_def catch_forward_def capture_def)
qed

lemma holding_line_A:
  assumes "\<not> is_sentinel x" and "truthy (citations st)"
  shows "process_line_A E st x = ([Forwarded x], Inr st)"
  using assms
  by (auto simp: process_line_A_def is_sentinel_def try_A_def catch_forward_def capture_def
      split: option.splits sum.splits)

lemma sentinel_line_A:
  assumes "is_sentinel s" and "citations st = Some (JArr (map JStr cs))"
  shows "process_line_A E st s = ([footer_AB cs, Forwarded s], Inr (st\<lparr>citations := Some JNull\<rparr>))"
  using assms
  by (simp add: process_line_A_def is_sentinel_def sentinel_AB_def citationsMessage_strings)

lemma line_C_citations:
  "\<exists>out st'. process_line_C E st x = (out, Inr st') \<and> footers out = 0
      \<and> citations st' = citations (capture (cit_of E x) st)
      \<and> (is_sentinel x \<longrightarrow> out = [Forwarded x])"
proof (cases "event_of E x")
  case None
  then show ?thesis
    by (auto simp: process_line_C_def event_of_def is_sentinel_def try_C_def catch_forward_def
        cit_of_def capture_def split: if_splits)
next
  case (Some data)
  note line = event_ofD [OF Some]
  have ns: "\<not> is_sentinel x"
    using Some by (rule not_sentinel_event)
  show ?thesis
    using line Some ns
    by (cases data)
      (auto simp: process_line_C_def try_C_def catch_forward_def cit_of_def capture_def Let_def
        start_thinking_def split: sum.splits)
qed

lemma capture_same:
  "citations a = citations b \<Longrightarrow>
     citations (foldl (\<lambda>s x. capture (cit_of E x) s) a ls)
      = citations (foldl (\<lambda>s x. capture (cit_of E x) s) b ls)"
  for a b :: state_C
proof (induction ls arbitrary: a b)
  case Nil
  then show ?case by simp
next
  case (Cons x ls)
  have eq: "citations (capture (cit_of E x) a) = citations (capture (cit_of E x) b)"
    using Cons.prems by (simp add: capture_def)
  show ?case
    using Cons.IH [OF eq] by simp
qed

lemma lines_C_citations:
  "\<exists>out st'. for_lines (process_line_C E) st ls = (out, Inr st') \<and> footers out = 0
      \<and> citations st' = citations (foldl (\<lambda>s x. capture (cit_of E x) s) st ls)
      \<and> (\<forall>s \<in> set ls. is_sentinel s \<longrightarrow> Forwarded s \<in> set out)"
proof (induction ls arbitrary: st)
  case Nil
  then show ?case by simp
next
  case (Cons x ls)
  obtain o1 s1 where one: "process_line_C E st x = (o1, Inr s1)" "footers o1 = 0"
    "citations s1 = citations (capture (cit_of E x) st)" "is_sentinel x \<longrightarrow> o1 = [Forwarded x]"
    using line_C_citations [of E st x] by blast
  obtain o2 s2 where rest: "for_lines (process_line_C E) s1 ls = (o2, Inr s2)" "footers o2 = 0"
    "citations s2 = citations (foldl (\<lambda>s x. capture (cit_of E x) s) s1 ls)"
    "\<forall>s \<in> set ls. is_sentinel s \<longrightarrow> Forwarded s \<in> set o2"
    using Cons.IH [of s1] by blast
  note same = capture_same
  have run: "for_lines (process_line_C E) st (x # ls) = (o1 @ o2, Inr s2)"
    using one(1) rest(1) by simp
  have f: "footers (o1 @ o2) = 0"
    using one(2) rest(2) by simp
  have c: "citations s2 = citations (foldl (\<lambda>s x. capture (cit_of E x) s) st (x # ls))"
    using rest(3) same [OF one(3)] by simp
  have s: "\<forall>s \<in> set (x # ls). is_sentinel s \<longrightarrow> Forwarded s \<in> set (o1 @ o2)"
    using one(4) rest(4) by auto
  from run f c s show ?case
    by blast
qed

lemma first_citations_kept:
  assumes "\<forall>x \<in> set pre. \<not> truthy (cit_of E x)" and "truthy c" and "cit_of E l = c"
    and "\<not> truthy (citations st)"
  shows "citations (foldl (\<lambda>s x. capture (cit_of E x) s) st (pre @ l # post)) = c"
proof -
  have pre: "foldl (\<lambda>s x. capture (cit_of E x) s) st pre = st"
    using assms(1) by (induction pre) (simp_all add: capture_def)
  have keep: "citations (foldl (\<lambda>s x. capture (cit_of E x) s) a post) = citations a"
    if "truthy (citations a)" for a :: "'x state_A_scheme"
    using that by (induction post arbitrary: a) (simp_all add: capture_def)
  have "truthy (citations (capture (cit_of E l) st))" "citations (capture (cit_of E l) st) = c"
    using assms(2,3,4) by (simp_all add: capture_def)
  then show ?thesis
    by (simp add: pre keep)
qed

lemma finish_AB_strings:
  "citations st = Some (JArr (map JStr cs)) \<Longrightarrow> finish_AB E st = ([footer_AB cs], Closed)"
  by (simp add: finish_AB_def citationsMessage_strings)

lemma finish_AB_null: "\<not> truthy (citations st) \<Longrightarrow> finish_AB E st = ([], Closed)"
  by (simp add: finish_AB_def)

lemma finish_C_strings:
  "citations st = Some (JArr (map JStr cs)) \<Longrightarrow> cs \<noteq> [] \<Longrightarrow> finish_C E st = ([footer_C cs], Closed)"
  by (simp add: finish_C_def footer_C_def citation_entries_strings)

lemma stream_A_no_sentinel:
  assumes "\<forall>x \<in> set pre. \<not> truthy (cit_of E x)" and "cit_of E l = Some (JArr (map JStr cs))"
    and "\<forall>x \<in> set post. \<not> is_sentinel x"
  shows "for_lines (process_line_A E) init_A (pre @ l # post)
     = (map Forwarded (pre @ l # post), Inr \<lparr>citations = Some (JArr (map JStr cs))\<rparr>)"
proof -
  have a: "for_lines (process_line_A E) init_A pre = (map Forwarded pre, Inr init_A)"
    using assms(1) by (intro for_lines_all_forwarded plain_line_A) (simp_all add: init_A_def)
  have b: "process_line_A E init_A l = ([Forwarded l], Inr \<lparr>citations = Some (JArr (map JStr cs))\<rparr>)"
    using capturing_line_A [OF assms(2), of init_A] by (simp add: init_A_def)
  have c: "for_lines (process_line_A E) \<lparr>citations = Some (JArr (map JStr cs))\<rparr> post
     = (map Forwarded post, Inr \<lparr>citations = Some (JArr (map JStr cs))\<rparr>)"
    using assms(3) by (intro for_lines_all_forwarded holding_line_A) simp_all
  show ?thesis
    by (simp add: for_lines_append a b c)
qed

lemma stream_A_sentinel:
  assumes "\<forall>x \<in> set pre. \<not> truthy (cit_of E x)" and "cit_of E l = Some (JArr (map JStr cs))"
    and "\<forall>x \<in> set p1. \<not> is_sentinel x" and "is_sentinel s" and "\<forall>x \<in> set p2. \<not> truthy (cit_of E x)"
  shows "for_lines (process_line_A E) init_A (pre @ l # p1 @ s # p2)
     = (map Forwarded (pre @ l # p1) @ footer_AB cs # Forwarded s # map Forwarded p2, Inr init_A)"
proof -
  have a: "for_lines (process_line_A E) init_A (pre @ l # p1)
     = (map Forwarded (pre @ l # p1), Inr \<lparr>citations = Some (JArr (map JStr cs))\<rparr>)"
    using assms(1,2,3) by (rule stream_A_no_sentinel)
  have b: "process_line_A E \<lparr>citations = Some (JArr (map JStr cs))\<rparr> s
     = ([footer_AB cs, Forwarded s], Inr init_A)"
    using sentinel_line_A [OF assms(4), of "\<lparr>citations = Some (JArr (map JStr cs))\<rparr>" cs E]
    by (simp add: init_A_def)
  have c: "for_lines (process_line_A E) init_A p2 = (map Forwarded p2, Inr init_A)"
    using assms(5) by (intro for_lines_all_forwarded plain_line_A) (simp_all add: init_A_def)
  have "for_lines (process_line_A E) init_A ((pre @ l # p1) @ s # p2)
     = (map Forwarded (pre @ l # p1) @ footer_AB cs # Forwarded s # map Forwarded p2, Inr init_A)"
    unfolding for_lines_append [of _ _ "pre @ l # p1"] a by (simp add: b c)
  then show ?thesis by simp
qed

text \<open>
  Claim C4, as the code has it. Let the first complete line with truthy citations carry a list
  \<open>cs\<close> of strings. The first version of reason.js passes every line on and sends one footer,
  \<^verbatim>\<open>{"citations": "[1] > c1\n[2] > c2..."}\<close>: after the last line when no sentinel line
  follows, and otherwise right before the first sentinel line that follows, provided that no
  line after that sentinel has truthy citations. The first version of the other file, when
  \<open>cs\<close> is not empty, sends one footer as its last event, after every sentinel line, with the
  content \<^verbatim>\<open>\n\n---\n\nSources:\n\<close> and the entries \<^verbatim>\<open>[i]> c\<close>. Either way the entries are
  the citations, each once, in their order, numbered from 1 and joined by line breaks.
\<close>

theorem citation_footer:
  assumes "complete_lines (concat chunks) = pre @ l # post"
    and "\<forall>x \<in> set pre. \<not> truthy (cit_of E x)"
    and "cit_of E l = Some (JArr (map JStr cs))"
  shows "((\<forall>x \<in> set post. \<not> is_sentinel x) \<longrightarrow>
            processStreamingResponse_A E chunks = (map Forwarded (pre @ l # post) @ [footer_AB cs], Closed))
    \<and> (\<forall>p1 s p2. post = p1 @ s # p2 \<and> (\<forall>x \<in> set p1. \<not> is_sentinel x) \<and> is_sentinel s
          \<and> (\<forall>x \<in> set p2. \<not> truthy (cit_of E x)) \<longrightarrow>
            processStreamingResponse_A E chunks
              = (map Forwarded (pre @ l # p1) @ footer_AB cs # Forwarded s # map Forwarded p2, Closed))
    \<and> (cs \<noteq> [] \<longrightarrow>
          (\<exists>out. processStreamingResponse_C E chunks = (out @ [footer_C cs], Closed) \<and> footers out = 0
             \<and> (\<forall>s \<in> set (pre @ l # post). is_sentinel s \<longrightarrow> Forwarded s \<in> set out)))
    \<and> footer_AB cs = Footer (JObj [(''citations'', JStr (join [nl] (numbered '' > '' 0 cs)))])
    \<and> footer_C cs = Footer (only_delta
          (''\<newline>\<newline>---\<newline>\<newline>Sources:\<newline>'' @ join [nl] (numbered ''> '' 0 cs)))
    \<and> length (numbered mark 0 cs) = length cs
    \<and> (\<forall>i < length cs. numbered mark 0 cs ! i = ''['' @ nat_to_string (i + 1) @ '']'' @ mark @ cs ! i)"
proof -
  have A1: "(\<forall>x \<in> set post. \<not> is_sentinel x) \<longrightarrow>
            processStreamingResponse_A E chunks = (map Forwarded (pre @ l # post) @ [footer_AB cs], Closed)"
  proof
    assume "\<forall>x \<in> set post. \<not> is_sentinel x"
    from stream_A_no_sentinel [OF assms(2,3) this]
    show "processStreamingResponse_A E chunks = (map Forwarded (pre @ l # post) @ [footer_AB cs], Closed)"
      unfolding processStreamingResponse_A_def read_loop_text assms(1)
      by (simp add: finish_AB_strings)
  qed
  have A2: "\<forall>p1 s p2. post = p1 @ s # p2 \<and> (\<forall>x \<in> set p1. \<not> is_sentinel x) \<and> is_sentinel s
          \<and> (\<forall>x \<in> set p2. \<not> truthy (cit_of E x)) \<longrightarrow>
            processStreamingResponse_A E chunks
              = (map Forwarded (pre @ l # p1) @ footer_AB cs # Forwarded s # map Forwarded p2, Closed)"
  proof (intro allI impI)
    fix p1 s p2
    assume h: "post = p1 @ s # p2 \<and> (\<forall>x \<in> set p1. \<not> is_sentinel x) \<and> is_sentinel s
          \<and> (\<forall>x \<in> set p2. \<not> truthy (cit_of E x))"
    then have run: "for_lines (process_line_A E) init_A (pre @ l # p1 @ s # p2)
       = (map Forwarded (pre @ l # p1) @ footer_AB cs # Forwarded s # map Forwarded p2, Inr init_A)"
      using assms(2,3) by (intro stream_A_sentinel) simp_all
    have lines: "complete_lines (concat chunks) = pre @ l # p1 @ s # p2"
      using assms(1) h by simp
    show "processStreamingResponse_A E chunks
              = (map Forwarded (pre @ l # p1) @ footer_AB cs # Forwarded s # map Forwarded p2, Closed)"
      unfolding processStreamingResponse_A_def read_loop_text lines run
      by (simp add: finish_AB_null init_A_def)
  qed
  have C: "cs \<noteq> [] \<longrightarrow>
          (\<exists>out. processStreamingResponse_C E chunks = (out @ [footer_C cs], Closed) \<and> footers out = 0
             \<and> (\<forall>s \<in> set (pre @ l # post). is_sentinel s \<longrightarrow> Forwarded s \<in> set out))"
  proof
    assume ne: "cs \<noteq> []"
    obtain out st' where run: "for_lines (process_line_C E) init_C (pre @ l # post) = (out, Inr st')"
      "footers out = 0"
      "citations st' = citations (foldl (\<lambda>s x. capture (cit_of E x) s) init_C (pre @ l # post))"
      "\<forall>s \<in> set (pre @ l # post). is_sentinel s \<longrightarrow> Forwarded s \<in> set out"
      using lines_C_citations [of E init_C "pre @ l # post"] by blast
    have "citations st' = Some (JArr (map JStr cs))"
      unfolding run(3) using assms(2,3)
      by (intro first_citations_kept) (simp_all add: init_C_def)
    then have fin: "finish_C E st' = ([footer_C cs], Closed)"
      using ne by (rule finish_C_strings)
    have "processStreamingResponse_C E chunks = (out @ [footer_C cs], Closed)"
      unfolding processStreamingResponse_C_def read_loop_text assms(1) run(1)
      by (simp add: fin)
    with run(2,4)
    show "\<exists>out. processStreamingResponse_C E chunks = (out @ [footer_C cs], Closed) \<and> footers out = 0
             \<and> (\<forall>s \<in> set (pre @ l # post). is_sentinel s \<longrightarrow> Forwarded s \<in> set out)"
      by blast
  qed
  have n: "\<forall>i < length cs. numbered mark 0 cs ! i = ''['' @ nat_to_string (i + 1) @ '']'' @ mark @ cs ! i"
    by (simp add: numbered_nth)
  show ?thesis
    by (intro conjI A1 A2 C n length_numbered) (simp_all add: footer_AB_def footer_C_def)
qed

theorem citation_footer_witness:
  \<open>complete_lines (concat [''data: {"citations":["u","v"]}\<newline>data: [DONE]\<newline>''])
     = [] @ ''data: {"citations":["u","v"]}'' # [''data: [DONE]'']
   \<and> cit_of sample_env ''data: {"citations":["u","v"]}'' = Some (JArr (map JStr [''u'', ''v'']))
   \<and> is_sentinel ''data: [DONE]''
   \<and> processStreamingResponse_A sample_env [''data: {"citations":["u","v"]}\<newline>data: [DONE]\<newline>'']
     = ([Forwarded ''data: {"citations":["u","v"]}'', footer_AB [''u'', ''v''], Forwarded ''data: [DONE]''], Closed)
   \<and> footer_AB [''u'', ''v''] = Footer (JObj [(''citations'', JStr ''[1] > u\<newline>[2] > v'')])\<close>
proof -
  let ?chunks = \<open>[''data: {"citations":["u","v"]}\<newline>data: [DONE]\<newline>'']\<close>
  let ?l = \<open>''data: {"citations":["u","v"]}''\<close>
  have h1: "complete_lines (concat ?chunks) = [] @ ?l # [''data: [DONE]'']"
    by code_simp
  have h2: "\<forall>x \<in> set []. \<not> truthy (cit_of sample_env x)"
    by simp
  have h3: "cit_of sample_env ?l = Some (JArr (map JStr [''u'', ''v'']))"
    by code_simp
  have s: "is_sentinel ''data: [DONE]''"
    by code_simp
  have f: \<open>footer_AB [''u'', ''v''] = Footer (JObj [(''citations'', JStr ''[1] > u\<newline>[2] > v'')])\<close>
    by code_simp
  have split_post: "[''data: [DONE]''] = [] @ ''data: [DONE]'' # [] \<and> (\<forall>x \<in> set []. \<not> is_sentinel x)
      \<and> is_sentinel ''data: [DONE]'' \<and> (\<forall>x \<in> set []. \<not> truthy (cit_of sample_env x))"
    using s by simp
  from citation_footer [OF h1 h2 h3] split_post
  have "processStreamingResponse_A sample_env ?chunks
     = (map Forwarded ([] @ ?l # []) @ footer_AB [''u'', ''v''] # Forwarded ''data: [DONE]'' # map Forwarded [], Closed)"
    by blast
  with h1 h3 s f show ?thesis
    by simp
qed

text \<open>
  The first version of the other file passes the sentinel line on when it reads it and sends
  the footer when the transport is done: the footer comes after the sentinel line.
\<close>

theorem footer_after_sentinel_counterexample:
  \<open>processStreamingResponse_C sample_env [''data: {"citations":["u","v"]}\<newline>data: [DONE]\<newline>'']
     = ([Forwarded ''data: {"citations":["u","v"]}'', Forwarded ''data: [DONE]'',
         Footer (only_delta ''\<newline>\<newline>---\<newline>\<newline>Sources:\<newline>[1]> u\<newline>[2]> v'')], Closed)
   \<and> is_sentinel ''data: [DONE]''\<close>
  by code_simp

text \<open>
  The first version of reason.js clears its store when it sends the footer before a sentinel
  line, so citations that arrive after that line are taken and sent again.
\<close>

lemma citations_after_sentinel_sent_again:
  \<open>processStreamingResponse_A sample_env
      [''data: {"citations":["u"]}\<newline>data: [DONE]\<newline>data: {"citations":["u"]}\<newline>'']
     = ([Forwarded ''data: {"citations":["u"]}'', footer_AB [''u''], Forwarded ''data: [DONE]'',
         Forwarded ''data: {"citations":["u"]}'', footer_AB [''u'']], Closed)\<close>
  by code_simp

section \<open>The markers of the reasoning phase\<close>

lemma headers_append [simp]: "headers (a @ b) = headers a + headers b"
  by (simp add: headers_def)

lemma separators_append [simp]: "separators (a @ b) = separators a + separators b"
  by (simp add: separators_def)

lemma headers_simps [simp]:
  "headers [] = 0" "headers (Forwarded l # out) = headers out" "headers (Header j # out) = Suc (headers out)"
  "headers (Reasoning j # out) = headers out" "headers (Separator j # out) = headers out"
  "headers (Cleaned j # out) = headers out" "headers (Footer j # out) = headers out"
  by (simp_all add: headers_def)

lemma separators_simps [simp]:
  "separators [] = 0" "separators (Forwarded l # out) = separators out"
  "separators (Header j # out) = separators out" "separators (Reasoning j # out) = separators out"
  "separators (Separator j # out) = Suc (separators out)"
  "separators (Cleaned j # out) = separators out" "separators (Footer j # out) = separators out"
  by (simp_all add: separators_def)

lemma fragments_headed_append:
  "fragments_headed h (a @ b) = (fragments_headed h a \<and> fragments_headed (h \<or> 0 < headers a) b)"
  by (induction h a rule: fragments_headed.induct) simp_all

lemma fragments_headed_mono: "fragments_headed h out \<Longrightarrow> fragments_headed True out"
  by (induction h out rule: fragments_headed.induct) auto

lemma fragments_headed_split:
  "fragments_headed h (p @ Reasoning x # q) \<Longrightarrow> h \<or> 0 < headers p"
  by (simp add: fragments_headed_append)

lemma marksD:
  assumes "marks f isR isS" and "f st l = (out, r)"
  shows "headers out = (if isR l \<and> \<not> reasoningStarted st then 1 else 0)"
    and "separators out = (if isS l \<and> reasoningStarted st \<and> \<not> reasoningEnded st then 1 else 0)"
    and "fragments_headed (reasoningStarted st) out"
    and "r = Inr st' \<Longrightarrow> reasoningStarted st' = (reasoningStarted st \<or> isR l)"
    and "r = Inr st' \<Longrightarrow> reasoningEnded st' = (reasoningEnded st \<or> (isS l \<and> reasoningStarted st))"
    and "isR l \<Longrightarrow> \<not> isS l"
    and "isS l \<Longrightarrow> \<exists>st'. r = Inr st'"
    and "isS l \<Longrightarrow> \<exists>pre. out = pre @ [Forwarded l] \<and> separators pre = separators out"
proof -
  note all = assms(1) [unfolded marks_def, THEN spec [of _ st], THEN spec [of _ l],
      unfolded assms(2) prod.case]
  show "headers out = (if isR l \<and> \<not> reasoningStarted st then 1 else 0)"
    and "separators out = (if isS l \<and> reasoningStarted st \<and> \<not> reasoningEnded st then 1 else 0)"
    and "fragments_headed (reasoningStarted st) out"
    and "r = Inr st' \<Longrightarrow> reasoningStarted st' = (reasoningStarted st \<or> isR l)"
    and "r = Inr st' \<Longrightarrow> reasoningEnded st' = (reasoningEnded st \<or> (isS l \<and> reasoningStarted st))"
    and "isR l \<Longrightarrow> \<not> isS l"
    and "isS l \<Longrightarrow> \<exists>st'. r = Inr st'"
    and "isS l \<Longrightarrow> \<exists>pre. out = pre @ [Forwarded l] \<and> separators pre = separators out"
    using all by blast+
qed

text \<open>Whatever the lines, at most one header and at most one separator.\<close>

lemma markers_at_most_once:
  assumes "marks f isR isS" and "for_lines f st ls = (out, r)"
  shows "headers out \<le> (if reasoningStarted st then 0 else 1)
    \<and> separators out \<le> (if reasoningEnded st then 0 else 1)"
  using assms(2)
proof (induction ls arbitrary: st out r)
  case Nil
  then show ?case by simp
next
  case (Cons l ls)
  obtain o1 r1 where one: "f st l = (o1, r1)"
    by (cases "f st l")
  note m = marksD [OF assms(1) one]
  show ?case
  proof (cases r1)
    case (Inl e)
    then have "out = o1"
      using Cons.prems one by simp
    then show ?thesis
      using m(1,2) by simp
  next
    case (Inr s1)
    obtain o2 r2 where rest: "for_lines f s1 ls = (o2, r2)"
      by (cases "for_lines f s1 ls")
    have out: "out = o1 @ o2"
      using Cons.prems one Inr rest by simp
    note ih = Cons.IH [OF rest]
    show ?thesis
      using m(1,2) m(4,5) [OF Inr] m(6) ih unfolding out
      by (auto split: if_splits)
  qed
qed

text \<open>When the loop runs to the end, the markers are counted by the flags.\<close>

lemma markers_by_flags:
  assumes "marks f isR isS" and "for_lines f st ls = (out, Inr st')"
  shows "headers out = (if reasoningStarted st' \<and> \<not> reasoningStarted st then 1 else 0)
    \<and> separators out = (if reasoningEnded st' \<and> \<not> reasoningEnded st then 1 else 0)
    \<and> reasoningStarted st' = (reasoningStarted st \<or> (\<exists>l \<in> set ls. isR l))
    \<and> (reasoningEnded st \<longrightarrow> reasoningEnded st')
    \<and> fragments_headed (reasoningStarted st) out"
  using assms(2)
proof (induction ls arbitrary: st out)
  case Nil
  then show ?case by simp
next
  case (Cons l ls)
  obtain o1 r1 where one: "f st l = (o1, r1)"
    by (cases "f st l")
  obtain s1 where r1: "r1 = Inr s1"
    using Cons.prems one by (cases r1) auto
  obtain o2 where rest: "for_lines f s1 ls = (o2, Inr st')" and out: "out = o1 @ o2"
    using Cons.prems one r1 by (cases "for_lines f s1 ls") auto
  note m = marksD [OF assms(1) one]
  note ih = Cons.IH [OF rest]
  have fh: "fragments_headed (reasoningStarted st) (o1 @ o2)"
  proof -
    have "fragments_headed (reasoningStarted st \<or> 0 < headers o1) o2"
    proof (cases "reasoningStarted s1")
      case True
      then have "reasoningStarted st \<or> 0 < headers o1"
        using m(1) m(4) [OF r1] by auto
      then show ?thesis
        using ih fragments_headed_mono by auto
    next
      case False
      then show ?thesis
        using ih m(1) m(4) [OF r1] by auto
    qed
    then show ?thesis
      using m(3) by (simp add: fragments_headed_append)
  qed
  have counts: "headers (o1 @ o2) = (if reasoningStarted st' \<and> \<not> reasoningStarted st then 1 else 0)
    \<and> separators (o1 @ o2) = (if reasoningEnded st' \<and> \<not> reasoningEnded st then 1 else 0)
    \<and> reasoningStarted st' = (reasoningStarted st \<or> (\<exists>l \<in> set (l # ls). isR l))
    \<and> (reasoningEnded st \<longrightarrow> reasoningEnded st')"
    using m(1,2) m(4,5) [OF r1] m(6) ih by (auto split: if_splits)
  show ?case
    unfolding out using counts fh by blast
qed

text \<open>Without a reasoning line there is no marker at all, even when the loop is left early.\<close>

lemma no_reasoning_no_markers:
  assumes "marks f isR isS" and "for_lines f st ls = (out, r)"
    and "\<not> reasoningStarted st" and "\<forall>l \<in> set ls. \<not> isR l"
  shows "headers out = 0 \<and> separators out = 0"
  using assms(2,3,4)
proof (induction ls arbitrary: st out r)
  case Nil
  then show ?case by simp
next
  case (Cons l ls)
  obtain o1 r1 where one: "f st l = (o1, r1)"
    by (cases "f st l")
  note m = marksD [OF assms(1) one]
  have none: "headers o1 = 0" "separators o1 = 0"
    using m(1,2) Cons.prems(2,3) by simp_all
  show ?case
  proof (cases r1)
    case (Inl e)
    then have "out = o1"
      using Cons.prems(1) one by simp
    then show ?thesis
      using none by simp
  next
    case (Inr s1)
    obtain o2 r2 where rest: "for_lines f s1 ls = (o2, r2)"
      by (cases "for_lines f s1 ls")
    have out: "out = o1 @ o2"
      using Cons.prems(1) one Inr rest by simp
    have "\<not> reasoningStarted s1"
      using m(4) [OF Inr] Cons.prems(2,3) by simp
    from Cons.IH [OF rest this] Cons.prems(3) none show ?thesis
      unfolding out by simp
  qed
qed

lemma citationsMessage_Footer: "citationsMessage E c = Inr m \<Longrightarrow> \<exists>j. m = Footer j"
  by (auto simp: citationsMessage_def split: sum.splits)

lemma delta_of_null [simp]: "delta_of JNull = None"
  by (simp add: delta_of_def choice0_def)

lemma quote_continuation_cases:
  "(\<exists>s. quote_continuation v = Inr s) \<or> quote_continuation v = Inl TypeError"
  by (cases v rule: quote_continuation.cases) simp_all

lemma truthy_opt_member: "truthy (opt_member v k) \<Longrightarrow> truthy v"
proof -
  assume "truthy (opt_member v k)"
  then obtain x where "opt_member v k = Some x"
    by (cases "opt_member v k") auto
  from member_Some_object [OF this] show ?thesis
    by auto
qed

lemma marks_B: "marks (process_line_B E) (reasoning_line_B E) (ends_B E)"
  unfolding marks_def
proof (intro allI)
  fix st :: state_B and l
  show "case process_line_B E st l of (out, r) \<Rightarrow>
        headers out = (if reasoning_line_B E l \<and> \<not> reasoningStarted st then 1 else 0)
      \<and> separators out = (if ends_B E l \<and> reasoningStarted st \<and> \<not> reasoningEnded st then 1 else 0)
      \<and> fragments_headed (reasoningStarted st) out
      \<and> (\<forall>st'. r = Inr st' \<longrightarrow>
            reasoningStarted st' = (reasoningStarted st \<or> reasoning_line_B E l)
          \<and> reasoningEnded st' = (reasoningEnded st \<or> (ends_B E l \<and> reasoningStarted st)))
      \<and> (reasoning_line_B E l \<longrightarrow> \<not> ends_B E l)
      \<and> (ends_B E l \<longrightarrow> (\<exists>st'. r = Inr st')
            \<and> (\<exists>pre. out = pre @ [Forwarded l] \<and> separators pre = separators out))"
  proof (cases "event_of E l")
    case None
    then have no: "\<not> reasoning_line_B E l" "\<not> ends_B E l"
      by (simp_all add: reasoning_line_B_def ends_B_def)
    from None no show ?thesis
      by (auto simp: process_line_B_def event_of_def sentinel_AB_def try_B_def catch_forward_def
          split: if_splits sum.splits dest: citationsMessage_Footer)
  next
    case (Some data)
    note line = event_ofD [OF Some]
    show ?thesis
    proof (cases "data = JNull")
      case True
      then have no: "\<not> reasoning_line_B E l" "\<not> ends_B E l"
        using Some by (simp_all add: reasoning_line_B_def ends_B_def)
      show ?thesis
        using no line True
        by (simp add: process_line_B_def try_B_def catch_forward_def)
    next
      case False
      note g = get_not_null [OF False, of "''citations''"]
      have R: "reasoning_line_B E l \<longleftrightarrow> truthy (opt_member (delta_of data) ''reasoning'')
          \<and> opt_member (delta_of data) ''content'' = Some JNull"
        using Some by (simp add: reasoning_line_B_def)
      have S: "ends_B E l \<longleftrightarrow> truthy (delta_of data) \<and> \<not> reasoning_line_B E l
          \<and> opt_member (delta_of data) ''content'' \<noteq> Some JNull"
        using Some by (simp add: ends_B_def)
      have td: "truthy (opt_member (delta_of data) ''reasoning'') \<Longrightarrow> truthy (delta_of data)"
        by (rule truthy_opt_member)
      consider (reasoning) "reasoning_line_B E l"
        | (ending) "\<not> reasoning_line_B E l" "ends_B E l" "reasoningStarted st" "\<not> reasoningEnded st"
        | (other) "\<not> reasoning_line_B E l" "\<not> (ends_B E l \<and> reasoningStarted st \<and> \<not> reasoningEnded st)"
        by blast
      then show ?thesis
      proof cases
        case reasoning
        then have nS: "\<not> ends_B E l" using S by simp
        have c: "truthy (opt_member (delta_of data) ''reasoning'')"
          "opt_member (delta_of data) ''content'' = Some JNull" "truthy (delta_of data)"
          using reasoning R td by simp_all
        from quote_continuation_cases [of "opt_member (delta_of data) ''reasoning''"]
        show ?thesis
          using nS line g c reasoning
          by (auto simp: process_line_B_def try_B_def catch_forward_def Let_def capture_def
              start_thinking_def)
      next
        case ending
        then have c: "truthy (delta_of data)" "opt_member (delta_of data) ''content'' \<noteq> Some JNull"
          "\<not> (truthy (opt_member (delta_of data) ''reasoning'')
              \<and> opt_member (delta_of data) ''content'' = Some JNull)"
          using S R by simp_all
        show ?thesis
          using line g c ending
          by (auto simp: process_line_B_def try_B_def catch_forward_def Let_def capture_def)
      next
        case other
        have c: "\<not> (truthy (opt_member (delta_of data) ''reasoning'')
              \<and> opt_member (delta_of data) ''content'' = Some JNull)"
          using other(1) R by simp
        have e: "\<not> (truthy (delta_of data) \<and> opt_member (delta_of data) ''content'' \<noteq> Some JNull
              \<and> reasoningStarted st \<and> \<not> reasoningEnded st)"
          using other S by blast
        have out: "process_line_B E st l = ([Forwarded l], Inr (capture (opt_member (Some data) ''citations'') st))"
          using line g c e
          by (auto simp: process_line_B_def try_B_def catch_forward_def Let_def capture_def)
        show ?thesis
          unfolding out using other by (auto simp: capture_def)
      qed
    qed
  qed
qed

lemma marks_C: "marks (process_line_C E) (reasoning_line_C E) (ends_C E)"
  unfolding marks_def
proof (intro allI)
  fix st :: state_C and l
  show "case process_line_C E st l of (out, r) \<Rightarrow>
        headers out = (if reasoning_line_C E l \<and> \<not> reasoningStarted st then 1 else 0)
      \<and> separators out = (if ends_C E l \<and> reasoningStarted st \<and> \<not> reasoningEnded st then 1 else 0)
      \<and> fragments_headed (reasoningStarted st) out
      \<and> (\<forall>st'. r = Inr st' \<longrightarrow>
            reasoningStarted st' = (reasoningStarted st \<or> reasoning_line_C E l)
          \<and> reasoningEnded st' = (reasoningEnded st \<or> (ends_C E l \<and> reasoningStarted st)))
      \<and> (reasoning_line_C E l \<longrightarrow> \<not> ends_C E l)
      \<and> (ends_C E l \<longrightarrow> (\<exists>st'. r = Inr st')
            \<and> (\<exists>pre. out = pre @ [Forwarded l] \<and> separators pre = separators out))"
  proof (cases "event_of E l")
    case None
    then have no: "\<not> reasoning_line_C E l" "\<not> ends_C E l"
      by (simp_all add: reasoning_line_C_def ends_C_def)
    from None no show ?thesis
      by (auto simp: process_line_C_def event_of_def try_C_def catch_forward_def
          split: if_splits sum.splits dest: citationsMessage_Footer)
  next
    case (Some data)
    note line = event_ofD [OF Some]
    show ?thesis
    proof (cases "data = JNull")
      case True
      then have no: "\<not> reasoning_line_C E l" "\<not> ends_C E l"
        using Some by (simp_all add: reasoning_line_C_def ends_C_def)
      show ?thesis
        using no line True
        by (simp add: process_line_C_def try_C_def catch_forward_def)
    next
      case False
      note g = get_not_null [OF False, of "''citations''"]
      have R: "reasoning_line_C E l \<longleftrightarrow> truthy (opt_member (delta_of data) ''reasoning'')
          \<and> \<not> truthy (opt_member (delta_of data) ''content'')"
        using Some by (simp add: reasoning_line_C_def)
      have S: "ends_C E l \<longleftrightarrow> truthy (delta_of data) \<and> \<not> reasoning_line_C E l
          \<and> opt_member (delta_of data) ''content'' \<noteq> None"
        using Some by (simp add: ends_C_def)
      have td: "truthy (opt_member (delta_of data) ''reasoning'') \<Longrightarrow> truthy (delta_of data)"
        by (rule truthy_opt_member)
      consider (reasoning) "reasoning_line_C E l"
        | (ending) "\<not> reasoning_line_C E l" "ends_C E l" "reasoningStarted st" "\<not> reasoningEnded st"
        | (other) "\<not> reasoning_line_C E l" "\<not> (ends_C E l \<and> reasoningStarted st \<and> \<not> reasoningEnded st)"
        by blast
      then show ?thesis
      proof cases
        case reasoning
        then have nS: "\<not> ends_C E l" using S by simp
        have c: "truthy (opt_member (delta_of data) ''reasoning'')"
          "\<not> truthy (opt_member (delta_of data) ''content'')" "truthy (delta_of data)"
          using reasoning R td by simp_all
        from quote_continuation_cases [of "opt_member (delta_of data) ''reasoning''"]
        show ?thesis
          using nS line g c reasoning
          by (auto simp: process_line_C_def try_C_def catch_forward_def Let_def capture_def
              start_thinking_def)
      next
        case ending
        then have c: "truthy (delta_of data)" "opt_member (delta_of data) ''content'' \<noteq> None"
          "\<not> (truthy (opt_member (delta_of data) ''reasoning'')
              \<and> \<not> truthy (opt_member (delta_of data) ''content''))"
          using S R by simp_all
        show ?thesis
          using line g c ending
          by (auto simp: process_line_C_def try_C_def catch_forward_def Let_def capture_def)
      next
        case other
        have c: "\<not> (truthy (opt_member (delta_of data) ''reasoning'')
              \<and> \<not> truthy (opt_member (delta_of data) ''content''))"
          using other(1) R by simp
        have e: "\<not> (truthy (delta_of data) \<and> opt_member (delta_of data) ''content'' \<noteq> None
              \<and> reasoningStarted st \<and> \<not> reasoningEnded st)"
          using other S by blast
        have out: "process_line_C E st l = ([Forwarded l], Inr (capture (opt_member (Some data) ''citations'') st))"
          using line g c e
          by (auto simp: process_line_C_def try_C_def catch_forward_def Let_def capture_def)
        show ?thesis
          unfolding out using other by (auto simp: capture_def)
      qed
    qed
  qed
qed

lemma for_lines_append_Inr:
  assumes "for_lines f st (xs @ ys) = (out, Inr st')"
  obtains o1 s1 o2 where "for_lines f st xs = (o1, Inr s1)" and "for_lines f s1 ys = (o2, Inr st')"
    and "out = o1 @ o2"
proof -
  obtain o1 r1 where a: "for_lines f st xs = (o1, r1)"
    by (cases "for_lines f st xs")
  obtain s1 where r1: "r1 = Inr s1"
    using assms a by (cases r1) (auto simp: for_lines_append)
  obtain o2 r2 where b: "for_lines f s1 ys = (o2, r2)"
    by (cases "for_lines f s1 ys")
  have "r2 = Inr st'" "out = o1 @ o2"
    using assms a r1 b by (simp_all add: for_lines_append)
  with a r1 b that show ?thesis
    by blast
qed

lemma for_lines_Cons_Inr:
  assumes "for_lines f st (x # ys) = (out, Inr st')"
  obtains o1 s1 o2 where "f st x = (o1, Inr s1)" and "for_lines f s1 ys = (o2, Inr st')"
    and "out = o1 @ o2"
proof -
  obtain o1 r1 where a: "f st x = (o1, r1)"
    by (cases "f st x")
  obtain s1 where r1: "r1 = Inr s1"
    using assms a by (cases r1) auto
  obtain o2 r2 where b: "for_lines f s1 ys = (o2, r2)"
    by (cases "for_lines f s1 ys")
  have "r2 = Inr st'" "out = o1 @ o2"
    using assms a r1 b by simp_all
  with a r1 b that show ?thesis
    by blast
qed

text \<open>After a reasoning line, the first line that ends the phase gets the one separator,
  and the separator is sent before the line.\<close>

lemma separator_before_content:
  assumes "marks f isR isS" and "for_lines f st (a @ r # b @ c # d) = (out, Inr st')"
    and "isR r" and "isS c" and "\<not> reasoningStarted st" and "\<not> reasoningEnded st"
  shows "separators out = 1 \<and> (\<exists>p q. out = p @ Forwarded c # q \<and> separators p = 1 \<and> headers p = 1)"
proof -
  have "for_lines f st ((a @ r # b) @ c # d) = (out, Inr st')"
    using assms(2) by simp
  then obtain o1 s1 o2 where first: "for_lines f st (a @ r # b) = (o1, Inr s1)"
    and second: "for_lines f s1 (c # d) = (o2, Inr st')" and out: "out = o1 @ o2"
    by (rule for_lines_append_Inr)
  obtain oc s2 od where line: "f s1 c = (oc, Inr s2)" and rest: "for_lines f s2 d = (od, Inr st')"
    and o2: "o2 = oc @ od"
    using second by (rule for_lines_Cons_Inr)
  note m1 = markers_by_flags [OF assms(1) first]
  note mc = marksD [OF assms(1) line]
  note m2 = markers_by_flags [OF assms(1) rest]
  have started: "reasoningStarted s1"
    using m1 assms(3) by auto
  have h1: "headers o1 = 1" and sep1: "separators o1 = (if reasoningEnded s1 then 1 else 0)"
    using m1 started assms(5,6) by auto
  have notR: "\<not> isR c"
    using mc(6) assms(4) by blast
  obtain pre where pre: "oc = pre @ [Forwarded c]" "separators pre = separators oc"
    using mc(8) [OF assms(4)] by blast
  have sepc: "separators oc = (if reasoningEnded s1 then 0 else 1)"
    using mc(2) assms(4) started by simp
  have hc: "headers pre = 0"
    using mc(1) notR pre(1) by simp
  have ended: "reasoningEnded s2"
    using mc(5) [OF refl] assms(4) started by simp
  have sepd: "separators od = 0"
    using m2 ended by auto
  have total: "separators out = 1"
    unfolding out o2 using sep1 sepc sepd by simp
  have shape: "out = (o1 @ pre) @ Forwarded c # od"
    unfolding out o2 pre(1) by simp
  have "separators (o1 @ pre) = 1" "headers (o1 @ pre) = 1"
    using sep1 sepc pre(2) h1 hc by simp_all
  with total shape show ?thesis
    by blast
qed

lemma content_ends_B: "content_line E c \<Longrightarrow> ends_B E c"
  by (auto simp: content_line_def ends_B_def reasoning_line_B_def split: option.splits
      dest: truthy_opt_member)

lemma truthy_not_None: "truthy v \<Longrightarrow> v \<noteq> None"
  by (cases v) simp_all

lemma content_ends_C: "content_line E c \<Longrightarrow> ends_C E c"
  by (auto simp: content_line_def ends_C_def reasoning_line_C_def split: option.splits
      dest: truthy_opt_member truthy_not_None)

lemma no_field_no_reasoning_line:
  "\<not> carries_reasoning E l \<Longrightarrow> \<not> reasoning_line_B E l \<and> \<not> reasoning_line_C E l"
  by (auto simp: carries_reasoning_def reasoning_line_B_def reasoning_line_C_def split: option.splits)

text \<open>What a transformer sends is what the loop over the complete lines sent, followed by
  at most a footer.\<close>

lemma stream_B:
  obtains out r fin where
    "for_lines (process_line_B E) init_B (complete_lines (concat chunks)) = (out, r)"
    and "fst (processStreamingResponse_B E chunks) = out @ fin"
    and "fin = [] \<or> (\<exists>j. fin = [Footer j])"
    and "snd (processStreamingResponse_B E chunks) = Closed \<longrightarrow> (\<exists>st. r = Inr st)"
proof -
  obtain out r where run: "for_lines (process_line_B E) init_B (complete_lines (concat chunks)) = (out, r)"
    by (cases "for_lines (process_line_B E) init_B (complete_lines (concat chunks))")
  show ?thesis
  proof (cases r)
    case (Inl e)
    have "fst (processStreamingResponse_B E chunks) = out @ []"
      "snd (processStreamingResponse_B E chunks) = Errored"
      unfolding processStreamingResponse_B_def read_loop_text run Inl by simp_all
    with run that [of out r "[]"] show ?thesis
      by simp
  next
    case (Inr st)
    obtain fin oc where fin: "finish_AB E st = (fin, oc)"
      by (cases "finish_AB E st")
    have shape: "fin = [] \<or> (\<exists>j. fin = [Footer j])"
      using fin by (auto simp: finish_AB_def split: if_splits sum.splits dest: citationsMessage_Footer)
    have "fst (processStreamingResponse_B E chunks) = out @ fin"
      unfolding processStreamingResponse_B_def read_loop_text run Inr by (simp add: fin)
    with run shape Inr that [of out r fin] show ?thesis
      by simp
  qed
qed

lemma stream_C:
  obtains out st fin where
    "for_lines (process_line_C E) init_C (complete_lines (concat chunks)) = (out, Inr st)"
    and "fst (processStreamingResponse_C E chunks) = out @ fin"
    and "fin = [] \<or> (\<exists>j. fin = [Footer j])"
proof -
  obtain out st where run: "for_lines (process_line_C E) init_C (complete_lines (concat chunks)) = (out, Inr st)"
    using lines_C_citations [of E init_C "complete_lines (concat chunks)"] by blast
  obtain fin oc where fin: "finish_C E st = (fin, oc)"
    by (cases "finish_C E st")
  have shape: "fin = [] \<or> (\<exists>j. fin = [Footer j])"
    using fin by (auto simp: finish_C_def split: if_splits sum.splits bool.splits)
  have "fst (processStreamingResponse_C E chunks) = out @ fin"
    unfolding processStreamingResponse_C_def read_loop_text run by (simp add: fin)
  with run shape that [of out st fin] show ?thesis
    by simp
qed

lemma footer_tail:
  assumes "fin = [] \<or> (\<exists>j. fin = [Footer j])"
  shows "headers (out @ fin) = headers out" and "separators (out @ fin) = separators out"
    and "fragments_headed h out \<Longrightarrow> fragments_headed h (out @ fin)"
  using assms by (auto simp: fragments_headed_append)

lemma header_before_fragment:
  assumes "fragments_headed False out" and "headers out \<le> 1" and "out = p @ Reasoning x # q"
  shows "headers p = 1"
proof -
  have "0 < headers p"
    using assms(1,3) fragments_headed_split [of False p x q] by simp
  moreover have "headers p \<le> 1"
    using assms(2,3) by simp
  ultimately show ?thesis by simp
qed

text \<open>
  Claim C1, as the code has it. The second version of reason.js and the first version of the
  other file send at most one header and at most one separator, whatever the response. When
  one of the complete lines is a reasoning fragment for the version (truthy reasoning with a
  content that is null, respectively falsy), there is exactly one header, and it comes
  before every reasoning fragment that is sent. When a content line (truthy content) comes
  after such a line, there is exactly one separator, and it is sent before that content line
  is passed on. For reason.js this is for a response that is closed, not left in error. When
  no line of the response carries a reasoning field, there is no header and no separator.
\<close>

theorem reasoning_markers:
  "headers (fst (processStreamingResponse_B E chunks)) \<le> 1
   \<and> separators (fst (processStreamingResponse_B E chunks)) \<le> 1
   \<and> headers (fst (processStreamingResponse_C E chunks)) \<le> 1
   \<and> separators (fst (processStreamingResponse_C E chunks)) \<le> 1
   \<and> (snd (processStreamingResponse_B E chunks) = Closed
        \<and> (\<exists>l \<in> set (complete_lines (concat chunks)). reasoning_line_B E l) \<longrightarrow>
          headers (fst (processStreamingResponse_B E chunks)) = 1
        \<and> (\<forall>p x q. fst (processStreamingResponse_B E chunks) = p @ Reasoning x # q \<longrightarrow> headers p = 1))
   \<and> ((\<exists>l \<in> set (complete_lines (concat chunks)). reasoning_line_C E l) \<longrightarrow>
          headers (fst (processStreamingResponse_C E chunks)) = 1
        \<and> (\<forall>p x q. fst (processStreamingResponse_C E chunks) = p @ Reasoning x # q \<longrightarrow> headers p = 1))
   \<and> (\<forall>a r b c d. snd (processStreamingResponse_B E chunks) = Closed
        \<and> complete_lines (concat chunks) = a @ r # b @ c # d
        \<and> reasoning_line_B E r \<and> content_line E c \<longrightarrow>
          separators (fst (processStreamingResponse_B E chunks)) = 1
        \<and> (\<exists>p q. fst (processStreamingResponse_B E chunks) = p @ Forwarded c # q \<and> separators p = 1))
   \<and> (\<forall>a r b c d. complete_lines (concat chunks) = a @ r # b @ c # d
        \<and> reasoning_line_C E r \<and> content_line E c \<longrightarrow>
          separators (fst (processStreamingResponse_C E chunks)) = 1
        \<and> (\<exists>p q. fst (processStreamingResponse_C E chunks) = p @ Forwarded c # q \<and> separators p = 1))
   \<and> ((\<forall>l \<in> set (complete_lines (concat chunks)). \<not> carries_reasoning E l) \<longrightarrow>
          headers (fst (processStreamingResponse_B E chunks)) = 0
        \<and> separators (fst (processStreamingResponse_B E chunks)) = 0
        \<and> headers (fst (processStreamingResponse_C E chunks)) = 0
        \<and> separators (fst (processStreamingResponse_C E chunks)) = 0)"
proof -
  let ?ls = "complete_lines (concat chunks)"
  let ?B = "processStreamingResponse_B E chunks"
  let ?C = "processStreamingResponse_C E chunks"
  obtain ob rb fb where B: "for_lines (process_line_B E) init_B ?ls = (ob, rb)"
    "fst ?B = ob @ fb" "fb = [] \<or> (\<exists>j. fb = [Footer j])"
    "snd ?B = Closed \<longrightarrow> (\<exists>st. rb = Inr st)"
    by (rule stream_B [of E chunks]) blast
  obtain oc sc fc where C: "for_lines (process_line_C E) init_C ?ls = (oc, Inr sc)"
    "fst ?C = oc @ fc" "fc = [] \<or> (\<exists>j. fc = [Footer j])"
    by (rule stream_C [of E chunks]) blast
  note tb = footer_tail [OF B(3), where out = ob]
  note tc = footer_tail [OF C(3), where out = oc]
  have iB: "\<not> reasoningStarted init_B" "\<not> reasoningEnded init_B"
    and iC: "\<not> reasoningStarted init_C" "\<not> reasoningEnded init_C"
    by (simp_all add: init_B_def init_C_def)
  have bound: "headers (fst ?B) \<le> 1 \<and> separators (fst ?B) \<le> 1
      \<and> headers (fst ?C) \<le> 1 \<and> separators (fst ?C) \<le> 1"
    using markers_at_most_once [OF marks_B B(1)] markers_at_most_once [OF marks_C C(1)] iB iC
    unfolding B(2) C(2) tb(1,2) tc(1,2) by simp
  have headB: "snd ?B = Closed \<and> (\<exists>l \<in> set ?ls. reasoning_line_B E l) \<longrightarrow>
          headers (fst ?B) = 1 \<and> (\<forall>p x q. fst ?B = p @ Reasoning x # q \<longrightarrow> headers p = 1)"
  proof
    assume h: "snd ?B = Closed \<and> (\<exists>l \<in> set ?ls. reasoning_line_B E l)"
    then obtain st where st: "rb = Inr st"
      using B(4) by blast
    note m = markers_by_flags [OF marks_B B(1) [unfolded st]]
    have one: "headers (fst ?B) = 1"
      unfolding B(2) tb(1) using m h iB by auto
    have fh: "fragments_headed False (fst ?B)"
      unfolding B(2) using m iB by (intro tb(3)) simp
    show "headers (fst ?B) = 1 \<and> (\<forall>p x q. fst ?B = p @ Reasoning x # q \<longrightarrow> headers p = 1)"
    proof (intro conjI allI impI)
      show "headers (fst ?B) = 1"
        by (rule one)
    next
      fix p x q
      assume "fst ?B = p @ Reasoning x # q"
      from header_before_fragment [OF fh _ this] one show "headers p = 1"
        by simp
    qed
  qed
  have headC: "(\<exists>l \<in> set ?ls. reasoning_line_C E l) \<longrightarrow>
          headers (fst ?C) = 1 \<and> (\<forall>p x q. fst ?C = p @ Reasoning x # q \<longrightarrow> headers p = 1)"
  proof
    assume h: "\<exists>l \<in> set ?ls. reasoning_line_C E l"
    note m = markers_by_flags [OF marks_C C(1)]
    have one: "headers (fst ?C) = 1"
      unfolding C(2) tc(1) using m h iC by auto
    have fh: "fragments_headed False (fst ?C)"
      unfolding C(2) using m iC by (intro tc(3)) simp
    show "headers (fst ?C) = 1 \<and> (\<forall>p x q. fst ?C = p @ Reasoning x # q \<longrightarrow> headers p = 1)"
    proof (intro conjI allI impI)
      show "headers (fst ?C) = 1"
        by (rule one)
    next
      fix p x q
      assume "fst ?C = p @ Reasoning x # q"
      from header_before_fragment [OF fh _ this] one show "headers p = 1"
        by simp
    qed
  qed
  have sepB: "\<forall>a r b c d. snd ?B = Closed \<and> ?ls = a @ r # b @ c # d
        \<and> reasoning_line_B E r \<and> content_line E c \<longrightarrow>
          separators (fst ?B) = 1 \<and> (\<exists>p q. fst ?B = p @ Forwarded c # q \<and> separators p = 1)"
  proof (intro allI impI)
    fix a r b c d
    assume h: "snd ?B = Closed \<and> ?ls = a @ r # b @ c # d \<and> reasoning_line_B E r \<and> content_line E c"
    then obtain st where st: "rb = Inr st"
      using B(4) by blast
    have run: "for_lines (process_line_B E) init_B (a @ r # b @ c # d) = (ob, Inr st)"
      using B(1) h st by simp
    from separator_before_content [OF marks_B run _ content_ends_B iB] h
    obtain p q where pq: "separators ob = 1" "ob = p @ Forwarded c # q" "separators p = 1"
      by blast
    have "fst ?B = p @ Forwarded c # (q @ fb)"
      unfolding B(2) pq(2) by simp
    then show "separators (fst ?B) = 1 \<and> (\<exists>p q. fst ?B = p @ Forwarded c # q \<and> separators p = 1)"
      using pq(1,3) tb(2) B(2) by metis
  qed
  have sepC: "\<forall>a r b c d. ?ls = a @ r # b @ c # d \<and> reasoning_line_C E r \<and> content_line E c \<longrightarrow>
          separators (fst ?C) = 1 \<and> (\<exists>p q. fst ?C = p @ Forwarded c # q \<and> separators p = 1)"
  proof (intro allI impI)
    fix a r b c d
    assume h: "?ls = a @ r # b @ c # d \<and> reasoning_line_C E r \<and> content_line E c"
    have run: "for_lines (process_line_C E) init_C (a @ r # b @ c # d) = (oc, Inr sc)"
      using C(1) h by simp
    from separator_before_content [OF marks_C run _ content_ends_C iC] h
    obtain p q where pq: "separators oc = 1" "oc = p @ Forwarded c # q" "separators p = 1"
      by blast
    have "fst ?C = p @ Forwarded c # (q @ fc)"
      unfolding C(2) pq(2) by simp
    then show "separators (fst ?C) = 1 \<and> (\<exists>p q. fst ?C = p @ Forwarded c # q \<and> separators p = 1)"
      using pq(1,3) tc(2) C(2) by metis
  qed
  have none: "(\<forall>l \<in> set ?ls. \<not> carries_reasoning E l) \<longrightarrow>
          headers (fst ?B) = 0 \<and> separators (fst ?B) = 0
        \<and> headers (fst ?C) = 0 \<and> separators (fst ?C) = 0"
  proof
    assume h: "\<forall>l \<in> set ?ls. \<not> carries_reasoning E l"
    then have nb: "\<forall>l \<in> set ?ls. \<not> reasoning_line_B E l" and nc: "\<forall>l \<in> set ?ls. \<not> reasoning_line_C E l"
      using no_field_no_reasoning_line by blast+
    show "headers (fst ?B) = 0 \<and> separators (fst ?B) = 0
        \<and> headers (fst ?C) = 0 \<and> separators (fst ?C) = 0"
      unfolding B(2) C(2) tb(1,2) tc(1,2)
      using no_reasoning_no_markers [OF marks_B B(1) iB(1) nb]
        no_reasoning_no_markers [OF marks_C C(1) iC(1) nc]
      by simp
  qed
  from bound headB headC sepB sepC none show ?thesis
    by (intro conjI) blast+
qed

theorem reasoning_markers_witness:
  \<open>snd (processStreamingResponse_B sample_env
      [''data: {"choices":[{"delta":{"reasoning":"x","content":null}}]}\<newline>data: {"choices":[{"delta":{"content":"hi"}}]}\<newline>''])
     = Closed
   \<and> complete_lines (concat
      [''data: {"choices":[{"delta":{"reasoning":"x","content":null}}]}\<newline>data: {"choices":[{"delta":{"content":"hi"}}]}\<newline>''])
     = [] @ ''data: {"choices":[{"delta":{"reasoning":"x","content":null}}]}'' # []
          @ ''data: {"choices":[{"delta":{"content":"hi"}}]}'' # []
   \<and> reasoning_line_B sample_env ''data: {"choices":[{"delta":{"reasoning":"x","content":null}}]}''
   \<and> content_line sample_env ''data: {"choices":[{"delta":{"content":"hi"}}]}''
   \<and> headers (fst (processStreamingResponse_B sample_env
      [''data: {"choices":[{"delta":{"reasoning":"x","content":null}}]}\<newline>data: {"choices":[{"delta":{"content":"hi"}}]}\<newline>'']))
     = 1
   \<and> separators (fst (processStreamingResponse_B sample_env
      [''data: {"choices":[{"delta":{"reasoning":"x","content":null}}]}\<newline>data: {"choices":[{"delta":{"content":"hi"}}]}\<newline>'']))
     = 1\<close>
proof -
  let ?chunks = \<open>[''data: {"choices":[{"delta":{"reasoning":"x","content":null}}]}\<newline>data: {"choices":[{"delta":{"content":"hi"}}]}\<newline>'']\<close>
  let ?r = \<open>''data: {"choices":[{"delta":{"reasoning":"x","content":null}}]}''\<close>
  let ?c = \<open>''data: {"choices":[{"delta":{"content":"hi"}}]}''\<close>
  have closed: "snd (processStreamingResponse_B sample_env ?chunks) = Closed"
    by code_simp
  have ls: "complete_lines (concat ?chunks) = [] @ ?r # [] @ ?c # []"
    by code_simp
  have r: "reasoning_line_B sample_env ?r"
    by code_simp
  have c: "content_line sample_env ?c"
    by code_simp
  have ex: "\<exists>l \<in> set (complete_lines (concat ?chunks)). reasoning_line_B sample_env l"
    unfolding ls using r by simp
  note markers = reasoning_markers [of sample_env ?chunks]
  have h: "headers (fst (processStreamingResponse_B sample_env ?chunks)) = 1"
    using markers closed ex by blast
  have s: "separators (fst (processStreamingResponse_B sample_env ?chunks)) = 1"
    using markers closed ls r c by blast
  from closed ls r c h s show ?thesis
    by blast
qed

text \<open>
  The second version of reason.js on a response whose only event has reasoning and no content
  key: the event carries a reasoning field, and no header is sent.
\<close>

theorem reasoning_without_header_counterexample:
  \<open>carries_reasoning sample_env ''data: {"choices":[{"delta":{"reasoning":"x"}}]}''
   \<and> processStreamingResponse_B sample_env [''data: {"choices":[{"delta":{"reasoning":"x"}}]}\<newline>'']
     = ([Forwarded ''data: {"choices":[{"delta":{"reasoning":"x"}}]}''], Closed)
   \<and> headers (fst (processStreamingResponse_B sample_env
        [''data: {"choices":[{"delta":{"reasoning":"x"}}]}\<newline>''])) = 0\<close>
  by code_simp

end
